theory Spec2Isabelle
  imports Main "HOL-Library.Word"
begin

section \<open>The interpreter of bfc.c\<close>

text \<open>
  The program is a Brainfuck interpreter in one C file. It reads the program text, sizes a
  byte tape to the program's length, matches the brackets into a jump table
  (\<open>build_jumps\<close>) and runs the dispatch loop (\<open>exec\<close>).

  Conventions of the embedding.
  \<^item> The program text \<open>code\<close> with its \<open>code_len\<close> is a \<open>string\<close>; \<open>code_len\<close> is its length.
  \<^item> A tape cell (\<open>unsigned char\<close>) is an \<open>8 word\<close>, so \<open>++\<close> and \<open>--\<close> wrap.
  \<^item> Indices and sizes (\<open>size_t\<close>, and the \<open>ssize_t\<close> entries of the jump table, which
    only ever hold indices below \<open>code_len\<close>) are \<open>nat\<close>. On a tape with \<open>1 \<le> len\<close> and
    \<open>pos < len\<close>, which is what \<open>tape_init\<close> builds and every instruction keeps, neither
    \<open>pos + 1\<close> nor \<open>len - 1\<close> wraps around.
  \<^item> Standard input is the list of bytes still to be read, standard output the list of
    bytes written so far.
  \<^item> \<open>malloc\<close> and \<open>calloc\<close> are taken to return a block, also for the request of zero
    bytes that \<open>build_jumps\<close> makes on the empty program (the C standard lets an
    implementation answer that one with a null pointer, which \<open>build_jumps\<close> would take
    for a failed allocation). The exits on a failed allocation are not part of the model.
\<close>

subsection \<open>The tape\<close>

type_synonym cell = "8 word"

record tape_t =
  tape :: "cell list"
  pos :: nat
  len :: nat

text \<open>
  The zeroing loop of \<open>tape_init\<close>: \<open>remaining\<close> bytes are still to be written and \<open>p\<close> is
  the part of the block written so far; each round copies one chunk of at most 4096 zero
  bytes behind it.
\<close>

function zero_fill :: "nat \<Rightarrow> cell list \<Rightarrow> cell list" where
  "zero_fill remaining p =
     (if remaining \<noteq> 0
      then zero_fill (remaining - (if remaining < 4096 then remaining else 4096))
             (p @ replicate (if remaining < 4096 then remaining else 4096) 0)
      else p)"
  by pat_completeness auto
termination
  by (relation "measure (\<lambda>(remaining, p). remaining)") auto

declare zero_fill.simps [simp del]

definition tape_init :: "nat \<Rightarrow> tape_t" where
  "tape_init n =
     \<lparr>tape = zero_fill (if n = 0 then 1 else n) [],
      pos = 0,
      len = (if n = 0 then 1 else n)\<rparr>"

subsection \<open>The jump table\<close>

text \<open>
  \<open>build_jumps\<close> prints which bracket is unmatched and where, and returns -1; the value
  of the model carries that message.
\<close>

datatype match_error = UnmatchedClose nat | UnmatchedOpen nat

text \<open>
  The scanning loop at index \<open>i\<close>. The list \<open>stack\<close> is the live part
  \<open>stack[0] .. stack[sp-1]\<close> of the C array, top first, so \<open>sp\<close> is its length; the
  slots from \<open>sp\<close> on, which \<open>malloc\<close> leaves undetermined, are never read. The loop ends
  early on a \<open>]\<close> met with an empty stack, and otherwise hands the table and the stack to
  the check that follows it.
\<close>

function bj_loop ::
  "string \<Rightarrow> nat \<Rightarrow> nat list \<Rightarrow> nat list \<Rightarrow> match_error + (nat list \<times> nat list)" where
  "bj_loop code i jumps stack =
     (if i < length code then
        (if code ! i = CHR ''['' then bj_loop code (i + 1) jumps (i # stack)
         else if code ! i = CHR '']'' then
           (case stack of
              [] \<Rightarrow> Inl (UnmatchedClose i)
            | open_idx # rest \<Rightarrow>
                bj_loop code (i + 1) (jumps[open_idx := i, i := open_idx]) rest)
         else bj_loop code (i + 1) jumps stack)
      else Inr (jumps, stack))"
  by pat_completeness auto
termination
  by (relation "measure (\<lambda>(code, i, jumps, stack). length code - i)") auto

declare bj_loop.simps [simp del]

definition build_jumps :: "string \<Rightarrow> match_error + nat list" where
  "build_jumps code =
     (case bj_loop code 0 (replicate (length code) 0) [] of
        Inl e \<Rightarrow> Inl e
      | Inr (jumps, stack) \<Rightarrow>
          (case stack of
             [] \<Rightarrow> Inr jumps
           | top_idx # _ \<Rightarrow> Inl (UnmatchedOpen top_idx)))"

subsection \<open>The execution engine\<close>

text \<open>
  What \<open>exec\<close> works on besides its instruction pointer: the tape it was handed and the
  two standard streams.
\<close>

record world =
  tp :: tape_t
  stdin :: "cell list"
  stdout :: "cell list"

text \<open>
  C gives no meaning to \<open>tape[pos]\<close> outside the allocated block. The model stops with a
  fault there, so that a run that returns a world has made valid accesses only.
\<close>

datatype fault = TapeIndex nat

definition in_tape :: "tape_t \<Rightarrow> bool" where
  "in_tape t0 \<longleftrightarrow> pos t0 < length (tape t0)"

definition EOF :: int where
  "EOF = - 1"

definition getchar :: "cell list \<Rightarrow> int \<times> cell list" where
  "getchar inp = (case inp of [] \<Rightarrow> (EOF, []) | b # bs \<Rightarrow> (uint b, bs))"

text \<open>
  The \<open>switch\<close> of the loop body at instruction \<open>i\<close>: the result is the instruction
  pointer and the world as the \<open>break\<close> leaves them, before the loop's \<open>++ip\<close>.
\<close>

definition dispatch :: "string \<Rightarrow> nat list \<Rightarrow> nat \<Rightarrow> world \<Rightarrow> fault + (nat \<times> world)" where
  "dispatch code jumps i w =
     (let c = code ! i; t0 = tp w in
      if c = CHR ''+'' then
        (if in_tape t0
         then Inr (i, w\<lparr>tp := t0\<lparr>tape := (tape t0)[pos t0 := tape t0 ! pos t0 + 1]\<rparr>\<rparr>)
         else Inl (TapeIndex (pos t0)))
      else if c = CHR ''-'' then
        (if in_tape t0
         then Inr (i, w\<lparr>tp := t0\<lparr>tape := (tape t0)[pos t0 := tape t0 ! pos t0 - 1]\<rparr>\<rparr>)
         else Inl (TapeIndex (pos t0)))
      else if c = CHR ''>'' then
        Inr (i, w\<lparr>tp := t0\<lparr>pos := (if pos t0 + 1 \<ge> len t0 then 0 else pos t0 + 1)\<rparr>\<rparr>)
      else if c = CHR ''<'' then
        Inr (i, w\<lparr>tp := t0\<lparr>pos := (if pos t0 = 0 then len t0 - 1 else pos t0 - 1)\<rparr>\<rparr>)
      else if c = CHR ''.'' then
        (if in_tape t0
         then Inr (i, w\<lparr>stdout := stdout w @ [tape t0 ! pos t0]\<rparr>)
         else Inl (TapeIndex (pos t0)))
      else if c = CHR '','' then
        (case getchar (stdin w) of
           (ch, rest) \<Rightarrow>
             (if in_tape t0
              then Inr (i, w\<lparr>tp := t0\<lparr>tape := (tape t0)[pos t0 :=
                                   (if ch = EOF then 0 else word_of_int ch)]\<rparr>,
                              stdin := rest\<rparr>)
              else Inl (TapeIndex (pos t0))))
      else if c = CHR ''['' then
        (if in_tape t0
         then (if tape t0 ! pos t0 = 0 then Inr (jumps ! i, w) else Inr (i, w))
         else Inl (TapeIndex (pos t0)))
      else if c = CHR '']'' then
        (if in_tape t0
         then (if tape t0 ! pos t0 \<noteq> 0 then Inr (jumps ! i, w) else Inr (i, w))
         else Inl (TapeIndex (pos t0)))
      else Inr (i, w))"

text \<open>One round of the \<open>for\<close> loop: the body, then \<open>++ip\<close>.\<close>

definition step :: "string \<Rightarrow> nat list \<Rightarrow> nat \<Rightarrow> world \<Rightarrow> fault + (nat \<times> world)" where
  "step code jumps i w =
     (case dispatch code jumps i w of
        Inl f \<Rightarrow> Inl f
      | Inr (i', w') \<Rightarrow> Inr (i' + 1, w'))"

text \<open>
  The \<open>for\<close> loop. A Brainfuck program need not halt, so the loop is a partial function:
  \<open>None\<close> is the run that never leaves it.
\<close>

partial_function (option) exec_loop ::
  "string \<Rightarrow> nat list \<Rightarrow> nat \<Rightarrow> world \<Rightarrow> (fault + (nat \<times> world)) option" where
  "exec_loop code jumps i w =
     (if i < length code then
        (case step code jumps i w of
           Inl f \<Rightarrow> Some (Inl f)
         | Inr (i', w') \<Rightarrow> exec_loop code jumps i' w')
      else Some (Inr (i, w)))"

declare exec_loop.simps [code]

text \<open>
  The first \<open>n\<close> rounds of the same loop, for statements about every finite stretch of a
  run whether or not the run ends.
\<close>

fun exec_rounds :: "nat \<Rightarrow> string \<Rightarrow> nat list \<Rightarrow> nat \<Rightarrow> world \<Rightarrow> fault + (nat \<times> world)" where
  "exec_rounds 0 code jumps i w = Inr (i, w)"
| "exec_rounds (Suc n) code jumps i w =
     (if i < length code then
        (case step code jumps i w of
           Inl f \<Rightarrow> Inl f
         | Inr (i', w') \<Rightarrow> exec_rounds n code jumps i' w')
      else Inr (i, w))"

text \<open>
  \<open>exec\<close> returns nothing; what it leaves behind is the world, and on a failed bracket
  match the messages on the error stream, which \<open>Aborted\<close> stands for.
\<close>

datatype outcome = Aborted match_error world | Completed world | Faulted fault

definition exec :: "string \<Rightarrow> world \<Rightarrow> outcome option" where
  "exec code w =
     (case build_jumps code of
        Inl e \<Rightarrow> Some (Aborted e w)
      | Inr jumps \<Rightarrow>
          (case exec_loop code jumps 0 w of
             None \<Rightarrow> None
           | Some (Inl f) \<Rightarrow> Some (Faulted f)
           | Some (Inr (i, w')) \<Rightarrow> Some (Completed w')))"

text \<open>\<open>main\<close>, from the program text on: the tape is as long as the program, at least 1.\<close>

definition main :: "string \<Rightarrow> cell list \<Rightarrow> outcome option" where
  "main code inp =
     exec code
       \<lparr>tp = tape_init (if length code \<noteq> 0 then length code else 1),
        stdin = inp,
        stdout = []\<rparr>"

subsection \<open>Bracket structure of a program text\<close>

text \<open>
  The notions the claims about \<open>build_jumps\<close> are stated in. They are defined on the
  text alone: the nesting depth of a text, balanced texts (the depth ends at 0 and no
  prefix closes more than it opened), and the pair of a \<open>[\<close> with the \<open>]\<close> that closes it
  (the text between them is balanced).
\<close>

definition is_bracket :: "char \<Rightarrow> bool" where
  "is_bracket c \<longleftrightarrow> c = CHR ''['' \<or> c = CHR '']''"

fun depth :: "string \<Rightarrow> int" where
  "depth [] = 0"
| "depth (c # cs) =
     (if c = CHR ''['' then 1 else if c = CHR '']'' then - 1 else 0) + depth cs"

definition balanced :: "string \<Rightarrow> bool" where
  "balanced xs \<longleftrightarrow> depth xs = 0 \<and> (\<forall>k \<in> {..length xs}. 0 \<le> depth (take k xs))"

definition slice :: "nat \<Rightarrow> nat \<Rightarrow> 'a list \<Rightarrow> 'a list" where
  "slice a b xs = take (b - a) (drop a xs)"

definition matches :: "string \<Rightarrow> nat \<Rightarrow> nat \<Rightarrow> bool" where
  "matches code i j \<longleftrightarrow>
     i < j \<and> j < length code \<and> code ! i = CHR ''['' \<and> code ! j = CHR '']'' \<and>
     balanced (slice (Suc i) j code)"

definition unclosed :: "string \<Rightarrow> nat \<Rightarrow> bool" where
  "unclosed code i \<longleftrightarrow>
     i < length code \<and> code ! i = CHR ''['' \<and> (\<forall>j \<in> {..<length code}. \<not> matches code i j)"

definition unmatched_close :: "string \<Rightarrow> nat \<Rightarrow> bool" where
  "unmatched_close code k \<longleftrightarrow>
     k < length code \<and> code ! k = CHR '']'' \<and> (\<forall>i \<in> {..<k}. \<not> matches code i k)"

subsection \<open>Invariants\<close>

text \<open>
  The scan's stack at index \<open>i\<close> lists the brackets still open, innermost first, and the
  text between two neighbours, and from the innermost to \<open>i\<close>, is balanced.
\<close>

fun decomp :: "string \<Rightarrow> nat \<Rightarrow> nat list \<Rightarrow> bool" where
  "decomp code i [] = balanced (take i code)"
| "decomp code i (q # rest) =
     (q < i \<and> code ! q = CHR ''['' \<and> balanced (slice (Suc q) i code) \<and> decomp code q rest)"

definition paired_below :: "string \<Rightarrow> nat \<Rightarrow> nat \<Rightarrow> bool" where
  "paired_below code i p \<longleftrightarrow>
     (\<exists>a b. matches code a b \<and> b < i \<and> (p = a \<or> p = b))"

definition scan_inv :: "string \<Rightarrow> nat \<Rightarrow> nat list \<Rightarrow> bool" where
  "scan_inv code i stack \<longleftrightarrow>
     i \<le> length code \<and> decomp code i stack \<and>
     (\<forall>p<i. is_bracket (code ! p) \<longrightarrow> p \<in> set stack \<or> paired_below code i p)"

definition jumps_inv :: "string \<Rightarrow> nat \<Rightarrow> nat list \<Rightarrow> bool" where
  "jumps_inv code i jumps \<longleftrightarrow>
     length jumps = length code \<and>
     (\<forall>a b. matches code a b \<and> b < i \<longrightarrow> jumps ! a = b \<and> jumps ! b = a) \<and>
     (\<forall>p<length code. \<not> is_bracket (code ! p) \<longrightarrow> jumps ! p = 0)"

text \<open>A tape as \<open>tape_init\<close> builds it: \<open>len\<close> cells, the cursor on one of them.\<close>

definition tape_ok :: "tape_t \<Rightarrow> bool" where
  "tape_ok t0 \<longleftrightarrow> length (tape t0) = len t0 \<and> pos t0 < len t0"

section \<open>Bracket matching\<close>

subsection \<open>Depth and balanced texts\<close>

lemma depth_append: "depth (xs @ ys) = depth xs + depth ys"
  by (induction xs) simp_all

lemma balanced_Nil: "balanced []"
  by (simp add: balanced_def)

lemma balanced_depth: "balanced xs \<Longrightarrow> depth xs = 0"
  by (simp add: balanced_def)

lemma balanced_prefix: "balanced xs \<Longrightarrow> 0 \<le> depth (take k xs)"
proof (cases "k \<le> length xs")
  case True
  assume "balanced xs"
  with True show ?thesis by (simp add: balanced_def)
next
  case False
  assume "balanced xs"
  with False show ?thesis by (simp add: balanced_def)
qed

lemma balancedI:
  assumes "depth xs = 0" and "\<And>k. k \<le> length xs \<Longrightarrow> 0 \<le> depth (take k xs)"
  shows "balanced xs"
  using assms by (simp add: balanced_def)

lemma balanced_append:
  assumes "balanced xs" and "balanced ys"
  shows "balanced (xs @ ys)"
proof (rule balancedI)
  show "depth (xs @ ys) = 0"
    using assms by (simp add: depth_append balanced_depth)
next
  fix k
  have "depth (take k (xs @ ys)) = depth (take k xs) + depth (take (k - length xs) ys)"
    by (simp add: depth_append)
  then show "0 \<le> depth (take k (xs @ ys))"
    using balanced_prefix [OF assms(1), of k] balanced_prefix [OF assms(2), of "k - length xs"]
    by simp
qed

lemma balanced_other: "\<not> is_bracket c \<Longrightarrow> balanced [c]"
proof (rule balancedI)
  assume "\<not> is_bracket c"
  then show "depth [c] = 0" by (simp add: is_bracket_def)
next
  fix k
  assume nb: "\<not> is_bracket c"
  have "take k [c] = [] \<or> take k [c] = [c]"
    by (cases k) simp_all
  then show "0 \<le> depth (take k [c])"
    using nb by (auto simp: is_bracket_def)
qed

lemma balanced_wrap:
  assumes "balanced xs"
  shows "balanced (CHR ''['' # xs @ [CHR '']''])"
proof (rule balancedI)
  show "depth (CHR ''['' # xs @ [CHR '']'']) = 0"
    using assms by (simp add: depth_append balanced_depth)
next
  fix k
  show "0 \<le> depth (take k (CHR ''['' # xs @ [CHR '']'']))"
  proof (cases k)
    case 0
    then show ?thesis by simp
  next
    case (Suc m)
    have "depth (take m (xs @ [CHR '']''])) = depth (take m xs) + depth (take (m - length xs) [CHR '']''])"
      by (simp add: depth_append)
    moreover have "- 1 \<le> depth (take (m - length xs) [CHR '']''])"
      by (cases "m - length xs") simp_all
    moreover have "0 \<le> depth (take m xs)"
      using assms by (rule balanced_prefix)
    ultimately show ?thesis
      using Suc by simp
  qed
qed

subsection \<open>Slices of the program text\<close>

lemma slice_0: "slice 0 i xs = take i xs"
  by (simp add: slice_def)

lemma slice_same: "slice a a xs = []"
  by (simp add: slice_def)

lemma slice_split:
  assumes "a \<le> b" and "b \<le> c"
  shows "slice a c xs = slice a b xs @ slice b c xs"
proof -
  have "c - a = (b - a) + (c - b)" using assms by arith
  then have "take (c - a) (drop a xs) = take (b - a) (drop a xs) @ take (c - b) (drop (b - a) (drop a xs))"
    by (simp only: take_add)
  moreover have "drop (b - a) (drop a xs) = drop b xs"
    using assms(1) by simp
  ultimately show ?thesis by (simp add: slice_def)
qed

lemma slice_single: "b < length xs \<Longrightarrow> slice b (Suc b) xs = [xs ! b]"
  by (simp add: slice_def take_Suc_conv_app_nth [of 0, simplified] hd_drop_conv_nth take_Suc)

lemma slice_snoc:
  assumes "a \<le> b" and "b < length xs"
  shows "slice a (Suc b) xs = slice a b xs @ [xs ! b]"
  using slice_split [of a b "Suc b" xs] assms by (simp add: slice_single)

lemma slice_open:
  assumes "a < b" and "a < length xs"
  shows "slice a b xs = xs ! a # slice (Suc a) b xs"
  using slice_split [of a "Suc a" b xs] assms by (simp add: slice_single)

lemma take_slice: "take k (slice a b xs) = slice a (min b (a + k)) xs"
proof -
  have "min k (b - a) = min b (a + k) - a" by arith
  then show ?thesis by (simp only: slice_def take_take)
qed

lemma balanced_slice_prefix:
  assumes "balanced (slice s b xs)" and "s \<le> a" and "a \<le> b"
  shows "0 \<le> depth (slice s a xs)"
proof -
  have "take (a - s) (slice s b xs) = slice s a xs"
    using assms(2,3) by (simp add: take_slice min_def)
  with balanced_prefix [OF assms(1), of "a - s"] show ?thesis by simp
qed

subsection \<open>A bracket has at most one partner\<close>

lemma open_has_room:
  assumes "balanced (slice s b xs)" and "s \<le> a" and "a < b" and "b \<le> length xs"
    and "xs ! a = CHR ''[''" and "balanced (slice (Suc a) b xs)"
  shows False
proof -
  have "slice s b xs = slice s a xs @ slice a b xs"
    using assms(2,3) by (intro slice_split) simp_all
  also have "slice a b xs = xs ! a # slice (Suc a) b xs"
    using assms(3,4) by (intro slice_open) simp_all
  finally have "depth (slice s b xs) = depth (slice s a xs) + 1 + depth (slice (Suc a) b xs)"
    using assms(5) by (simp add: depth_append)
  then have "depth (slice s a xs) = - 1"
    using balanced_depth [OF assms(1)] balanced_depth [OF assms(6)] by simp
  moreover have "0 \<le> depth (slice s a xs)"
    using assms(1,2,3) by (intro balanced_slice_prefix [where b = b]) simp_all
  ultimately show False by simp
qed

lemma close_ends_balance:
  assumes "balanced (slice s c xs)" and "s \<le> b" and "b < c" and "c \<le> length xs"
    and "xs ! b = CHR '']''" and "balanced (slice s b xs)"
  shows False
proof -
  have "slice s (Suc b) xs = slice s b xs @ [xs ! b]"
    using assms(2,3,4) by (intro slice_snoc) simp_all
  then have "depth (slice s (Suc b) xs) = - 1"
    using assms(5) balanced_depth [OF assms(6)] by (simp add: depth_append)
  moreover have "0 \<le> depth (slice s (Suc b) xs)"
    using assms(1,2,3) by (intro balanced_slice_prefix [where b = c]) simp_all
  ultimately show False by simp
qed

lemma matches_close_unique:
  assumes "matches code a b" and "matches code a c"
  shows "b = c"
proof -
  have aux: False if "matches code a b" and "matches code a c" and "b < c" for b c
    using that close_ends_balance [of "Suc a" c code b]
    by (simp add: matches_def)
  show ?thesis
    using aux [of b c] aux [of c b] assms by (meson linorder_neqE_nat)
qed

lemma matches_open_unique:
  assumes "matches code a c" and "matches code b c"
  shows "a = b"
proof -
  have aux: False if "matches code a c" and "matches code b c" and "a < b" for a b
    using that open_has_room [of "Suc a" c code b]
    by (simp add: matches_def)
  show ?thesis
    using aux [of a b] aux [of b a] assms by (meson linorder_neqE_nat)
qed

subsection \<open>Extending a balanced stretch\<close>

lemma balanced_close:
  assumes "balanced (slice s q xs)" and "s \<le> q" and "q < i" and "i < length xs"
    and "xs ! q = CHR ''[''" and "xs ! i = CHR '']''" and "balanced (slice (Suc q) i xs)"
  shows "balanced (slice s (Suc i) xs)"
proof -
  have "slice s (Suc i) xs = slice s q xs @ slice q (Suc i) xs"
    using assms(2,3) by (intro slice_split) simp_all
  also have "slice q (Suc i) xs = xs ! q # slice (Suc q) (Suc i) xs"
    using assms(3,4) by (intro slice_open) simp_all
  also have "slice (Suc q) (Suc i) xs = slice (Suc q) i xs @ [xs ! i]"
    using assms(3,4) by (intro slice_snoc) simp_all
  finally have "slice s (Suc i) xs =
      slice s q xs @ (CHR ''['' # slice (Suc q) i xs @ [CHR '']''])"
    using assms(5,6) by simp
  then show ?thesis
    using balanced_append [OF assms(1) balanced_wrap [OF assms(7)]] by simp
qed

lemma balanced_step_other:
  assumes "balanced (slice s i xs)" and "s \<le> i" and "i < length xs"
    and "\<not> is_bracket (xs ! i)"
  shows "balanced (slice s (Suc i) xs)"
proof -
  have "slice s (Suc i) xs = slice s i xs @ [xs ! i]"
    using assms(2,3) by (intro slice_snoc) simp_all
  then show ?thesis
    using balanced_append [OF assms(1) balanced_other [OF assms(4)]] by simp
qed

subsection \<open>A pair does not depend on the text behind it\<close>

lemma slice_take_append:
  assumes "b \<le> n" and "n \<le> length xs"
  shows "slice a b (take n xs @ rest) = slice a b xs"
proof (cases "a \<le> b")
  case False
  then show ?thesis by (simp add: slice_def)
next
  case True
  have "slice a b (take n xs @ rest) = take (b - a) (drop a (take n xs) @ drop (a - n) rest)"
    using assms by (simp add: slice_def)
  also have "\<dots> = take (b - a) (drop a (take n xs))"
    using assms True by simp
  also have "\<dots> = take (b - a) (drop a xs)"
    using assms True by (simp add: drop_take min_def)
  finally show ?thesis by (simp add: slice_def)
qed

lemma matches_take_append:
  assumes "b < n" and "n \<le> length xs"
  shows "matches (take n xs @ rest) a b = matches xs a b"
proof (cases "a < b")
  case False
  then show ?thesis by (simp add: matches_def)
next
  case True
  have "slice (Suc a) b (take n xs @ rest) = slice (Suc a) b xs"
    using assms by (intro slice_take_append) simp_all
  moreover have "(take n xs @ rest) ! a = xs ! a" "(take n xs @ rest) ! b = xs ! b"
    using assms True by (simp_all add: nth_append)
  ultimately show ?thesis
    using assms by (simp add: matches_def)
qed

lemma unmatched_close_take_append:
  assumes "k < n" and "n \<le> length xs"
  shows "unmatched_close (take n xs @ rest) k = unmatched_close xs k"
proof -
  have "(take n xs @ rest) ! k = xs ! k"
    using assms by (simp add: nth_append)
  then show ?thesis
    using assms by (simp add: unmatched_close_def matches_take_append)
qed

subsection \<open>The stack of the scan\<close>

lemma decomp_lt: "decomp code i stack \<Longrightarrow> p \<in> set stack \<Longrightarrow> p < i"
proof (induction stack arbitrary: i)
  case Nil
  then show ?case by simp
next
  case (Cons q rest)
  from Cons.prems have "q < i" and d: "decomp code q rest" by simp_all
  show ?case
  proof (cases "p = q")
    case True
    with \<open>q < i\<close> show ?thesis by simp
  next
    case False
    with Cons.prems have "p \<in> set rest" by simp
    from Cons.IH [OF d this] \<open>q < i\<close> show ?thesis by simp
  qed
qed

text \<open>
  The C array \<open>stack\<close> has \<open>code_len\<close> slots. At index \<open>i\<close> at most \<open>i\<close> of them are in
  use, so the push at \<open>i < code_len\<close> stays inside the array.
\<close>

lemma decomp_length: "decomp code i stack \<Longrightarrow> length stack \<le> i"
proof (induction stack arbitrary: i)
  case Nil
  then show ?case by simp
next
  case (Cons q rest)
  from Cons.prems have "q < i" and "decomp code q rest" by simp_all
  with Cons.IH [of q] show ?case by simp
qed

lemma decomp_open_at: "decomp code i stack \<Longrightarrow> p \<in> set stack \<Longrightarrow> code ! p = CHR ''[''"
proof (induction stack arbitrary: i)
  case Nil
  then show ?case by simp
next
  case (Cons q rest)
  then show ?case by (cases "p = q") auto
qed

lemma decomp_depth:
  "decomp code i stack \<Longrightarrow> i \<le> length code \<Longrightarrow> depth (take i code) = int (length stack)"
proof (induction stack arbitrary: i)
  case Nil
  then show ?case by (simp add: balanced_depth)
next
  case (Cons q rest)
  from Cons.prems have q: "q < i" and o: "code ! q = CHR ''[''"
    and b: "balanced (slice (Suc q) i code)" and d: "decomp code q rest"
    by simp_all
  have "slice 0 i code = slice 0 q code @ slice q i code"
    using q by (intro slice_split) simp_all
  also have "slice q i code = code ! q # slice (Suc q) i code"
    using q Cons.prems(2) by (intro slice_open) simp_all
  finally have "depth (take i code) = depth (take q code) + 1 + depth (slice (Suc q) i code)"
    using o by (simp add: slice_0 depth_append)
  moreover have "depth (take q code) = int (length rest)"
    using d q Cons.prems(2) by (intro Cons.IH) simp_all
  ultimately show ?case
    using balanced_depth [OF b] by simp
qed

lemma decomp_other:
  assumes "decomp code i stack" and "i < length code" and "\<not> is_bracket (code ! i)"
  shows "decomp code (Suc i) stack"
proof (cases stack)
  case Nil
  with assms(1) have "balanced (slice 0 i code)" by (simp add: slice_0)
  from balanced_step_other [OF this _ assms(2,3)] Nil show ?thesis
    by (simp add: slice_0)
next
  case (Cons q rest)
  with assms(1) have q: "q < i" and b: "balanced (slice (Suc q) i code)" by simp_all
  from q have "Suc q \<le> i" by simp
  from balanced_step_other [OF b this assms(2,3)] Cons assms(1) show ?thesis
    by simp
qed

lemma decomp_open:
  assumes "decomp code i stack" and "code ! i = CHR ''[''"
  shows "decomp code (Suc i) (i # stack)"
  using assms by (simp add: slice_same balanced_Nil)

lemma decomp_matches:
  assumes "decomp code i (q # rest)" and "i < length code" and "code ! i = CHR '']''"
  shows "matches code q i"
  using assms by (simp add: matches_def)

lemma decomp_close:
  assumes "decomp code i (q # rest)" and "i < length code" and "code ! i = CHR '']''"
  shows "decomp code (Suc i) rest"
proof -
  from assms(1) have q: "q < i" and o: "code ! q = CHR ''[''"
    and b: "balanced (slice (Suc q) i code)" and d: "decomp code q rest"
    by simp_all
  show ?thesis
  proof (cases rest)
    case Nil
    with d have "balanced (slice 0 q code)" by (simp add: slice_0)
    from balanced_close [OF this _ q assms(2) o assms(3) b] Nil show ?thesis
      by (simp add: slice_0)
  next
    case (Cons q' r)
    with d have q': "q' < q" and b': "balanced (slice (Suc q') q code)" by simp_all
    from q' have "Suc q' \<le> q" by simp
    from balanced_close [OF b' this q assms(2) o assms(3) b] Cons d q' q show ?thesis
      by simp
  qed
qed

lemma empty_stack_unmatched:
  assumes "decomp code k []" and "k < length code" and "code ! k = CHR '']''"
  shows "unmatched_close code k"
proof -
  have "\<not> matches code a k" for a
  proof
    assume m: "matches code a k"
    from assms(1) have "balanced (slice 0 k code)" by (simp add: slice_0)
    from open_has_room [OF this, of a] m assms(2) show False
      by (simp add: matches_def)
  qed
  then show ?thesis
    using assms(2,3) by (simp add: unmatched_close_def)
qed

lemma top_unclosed:
  assumes "decomp code (length code) (q # rest)"
  shows "unclosed code q"
proof -
  from assms have q: "q < length code" and o: "code ! q = CHR ''[''"
    and b: "balanced (slice (Suc q) (length code) code)"
    by simp_all
  have "\<not> matches code q j" for j
  proof
    assume m: "matches code q j"
    then have "Suc q \<le> j" "j < length code" "code ! j = CHR '']''"
      "balanced (slice (Suc q) j code)"
      by (simp_all add: matches_def)
    from close_ends_balance [OF b this(1,2) _ this(3,4)] show False by simp
  qed
  then show ?thesis
    using q o by (simp add: unclosed_def)
qed

subsection \<open>The scan keeps its invariants\<close>

lemma paired_below_mono:
  assumes "paired_below code i p"
  shows "paired_below code (Suc i) p"
proof -
  from assms obtain a b where "matches code a b" "b < i" "p = a \<or> p = b"
    unfolding paired_below_def by blast
  then have "matches code a b \<and> b < Suc i \<and> (p = a \<or> p = b)" by simp
  then show ?thesis unfolding paired_below_def by blast
qed

lemma scan_inv_init: "scan_inv code 0 []"
  by (simp add: scan_inv_def balanced_Nil)

lemma jumps_inv_init: "jumps_inv code 0 (replicate (length code) 0)"
  by (simp add: jumps_inv_def)

lemma scan_inv_other:
  assumes "scan_inv code i stack" and "i < length code" and "\<not> is_bracket (code ! i)"
  shows "scan_inv code (Suc i) stack"
proof -
  from assms(1) have d: "decomp code i stack"
    and m: "\<And>p. p < i \<Longrightarrow> is_bracket (code ! p) \<Longrightarrow> p \<in> set stack \<or> paired_below code i p"
    by (simp_all add: scan_inv_def)
  have "p \<in> set stack \<or> paired_below code (Suc i) p"
    if "p < Suc i" and "is_bracket (code ! p)" for p
  proof -
    from that assms(3) have "p < i" by (cases "p = i") auto
    from m [OF this that(2)] show ?thesis by (auto dest: paired_below_mono)
  qed
  then show ?thesis
    using decomp_other [OF d assms(2,3)] assms(2) by (simp add: scan_inv_def)
qed

lemma scan_inv_open:
  assumes "scan_inv code i stack" and "i < length code" and "code ! i = CHR ''[''"
  shows "scan_inv code (Suc i) (i # stack)"
proof -
  from assms(1) have d: "decomp code i stack"
    and m: "\<And>p. p < i \<Longrightarrow> is_bracket (code ! p) \<Longrightarrow> p \<in> set stack \<or> paired_below code i p"
    by (simp_all add: scan_inv_def)
  have "p \<in> set (i # stack) \<or> paired_below code (Suc i) p"
    if "p < Suc i" and "is_bracket (code ! p)" for p
  proof (cases "p = i")
    case True
    then show ?thesis by simp
  next
    case False
    with that have "p < i" by simp
    from m [OF this that(2)] show ?thesis by (auto dest: paired_below_mono)
  qed
  then show ?thesis
    using decomp_open [OF d assms(3)] assms(2) by (simp add: scan_inv_def)
qed

lemma scan_inv_close:
  assumes "scan_inv code i (q # rest)" and "i < length code" and "code ! i = CHR '']''"
  shows "scan_inv code (Suc i) rest"
proof -
  from assms(1) have d: "decomp code i (q # rest)"
    and m: "\<And>p. p < i \<Longrightarrow> is_bracket (code ! p) \<Longrightarrow>
              p \<in> set (q # rest) \<or> paired_below code i p"
    by (simp_all add: scan_inv_def)
  have mt: "matches code q i"
    using d assms(2,3) by (rule decomp_matches)
  have new: "paired_below code (Suc i) q" "paired_below code (Suc i) i"
    using mt unfolding paired_below_def by blast+
  have "p \<in> set rest \<or> paired_below code (Suc i) p"
    if "p < Suc i" and "is_bracket (code ! p)" for p
  proof (cases "p = i")
    case True
    with new show ?thesis by simp
  next
    case False
    with that have "p < i" by simp
    from m [OF this that(2)] new show ?thesis by (auto dest: paired_below_mono)
  qed
  then show ?thesis
    using decomp_close [OF d assms(2,3)] assms(2) by (simp add: scan_inv_def)
qed

lemma jumps_inv_keep:
  assumes "jumps_inv code i jumps" and "code ! i \<noteq> CHR '']''"
  shows "jumps_inv code (Suc i) jumps"
proof -
  have "b < i" if "matches code a b" and "b < Suc i" for a b
  proof -
    from that(1) have "code ! b = CHR '']''" by (simp add: matches_def)
    with assms(2) have "b \<noteq> i" by auto
    with that(2) show ?thesis by simp
  qed
  then show ?thesis
    using assms(1) unfolding jumps_inv_def by blast
qed

lemma jumps_inv_close:
  assumes "decomp code i (q # rest)" and "jumps_inv code i jumps"
    and "i < length code" and "code ! i = CHR '']''"
  shows "jumps_inv code (Suc i) (jumps[q := i, i := q])"
proof -
  from assms(1) have q: "q < i" and o: "code ! q = CHR ''[''" by simp_all
  from assms(2) have len: "length jumps = length code"
    and old: "\<And>a b. matches code a b \<Longrightarrow> b < i \<Longrightarrow> jumps ! a = b \<and> jumps ! b = a"
    and zero: "\<And>p. p < length code \<Longrightarrow> \<not> is_bracket (code ! p) \<Longrightarrow> jumps ! p = 0"
    by (simp_all add: jumps_inv_def)
  have mt: "matches code q i"
    using assms(1,3,4) by (rule decomp_matches)
  let ?j = "jumps[q := i, i := q]"
  have pairs: "?j ! a = b \<and> ?j ! b = a" if m: "matches code a b" and b: "b < Suc i" for a b
  proof (cases "b = i")
    case True
    with m mt have "a = q" by (auto dest: matches_open_unique)
    with True q assms(3) len show ?thesis by simp
  next
    case False
    with b have bi: "b < i" by simp
    from m have ab: "a < b" and cb: "code ! b = CHR '']''" by (simp_all add: matches_def)
    have "a \<noteq> q"
    proof
      assume "a = q"
      with m mt have "b = i" by (auto dest: matches_close_unique)
      with False show False by simp
    qed
    moreover have "b \<noteq> q" using cb o by auto
    moreover have "a \<noteq> i" "b \<noteq> i" using ab bi by simp_all
    ultimately show ?thesis using old [OF m bi] by simp
  qed
  have zeros: "?j ! p = 0" if "p < length code" and "\<not> is_bracket (code ! p)" for p
  proof -
    from that(2) o assms(4) have "p \<noteq> q" "p \<noteq> i" by (auto simp: is_bracket_def)
    then show ?thesis using zero [OF that] by simp
  qed
  show ?thesis
    unfolding jumps_inv_def using len pairs zeros by simp
qed

lemma bj_loop_scan:
  assumes "scan_inv code i stack" and "jumps_inv code i jumps"
  shows "case bj_loop code i jumps stack of
           Inl e \<Rightarrow> (\<exists>k. e = UnmatchedClose k \<and> k < length code \<and> code ! k = CHR '']'' \<and>
                       scan_inv code k [])
         | Inr (jumps', stack') \<Rightarrow>
             scan_inv code (length code) stack' \<and> jumps_inv code (length code) jumps'"
  using assms
proof (induction code i jumps stack rule: bj_loop.induct)
  case (1 code i jumps stack)
  show ?case
  proof (cases "i < length code")
    case False
    with "1.prems"(1) have "i = length code" by (simp add: scan_inv_def)
    with "1.prems" show ?thesis by (subst bj_loop.simps) simp
  next
    case True
    show ?thesis
    proof (cases "code ! i = CHR ''[''")
      case op: True
      have "scan_inv code (i + 1) (i # stack)"
        using scan_inv_open [OF "1.prems"(1) True op] by simp
      moreover have "jumps_inv code (i + 1) jumps"
        using jumps_inv_keep [OF "1.prems"(2)] op by simp
      ultimately show ?thesis
        using "1.IH"(1) [OF True op] True op by (subst bj_loop.simps) simp
    next
      case nop: False
      show ?thesis
      proof (cases "code ! i = CHR '']''")
        case cl: True
        show ?thesis
        proof (cases stack)
          case Nil
          with "1.prems"(1) True cl show ?thesis
            by (subst bj_loop.simps) simp
        next
          case (Cons q rest)
          have "scan_inv code (i + 1) rest"
            using scan_inv_close [OF _ True cl] "1.prems"(1) Cons by simp
          moreover have "jumps_inv code (i + 1) (jumps[q := i, i := q])"
            using jumps_inv_close [OF _ "1.prems"(2) True cl, of q rest] "1.prems"(1) Cons
            by (simp add: scan_inv_def)
          ultimately show ?thesis
            using "1.IH"(2) [OF True nop cl Cons] True nop cl Cons
            by (subst bj_loop.simps) simp
        qed
      next
        case ncl: False
        have nb: "\<not> is_bracket (code ! i)"
          using nop ncl by (simp add: is_bracket_def)
        have "scan_inv code (i + 1) stack"
          using scan_inv_other [OF "1.prems"(1) True nb] by simp
        moreover have "jumps_inv code (i + 1) jumps"
          using jumps_inv_keep [OF "1.prems"(2) ncl] by simp
        ultimately show ?thesis
          using "1.IH"(3) [OF True nop ncl] True nop ncl by (subst bj_loop.simps) simp
      qed
    qed
  qed
qed

lemma scan_from_start:
  "case bj_loop code 0 (replicate (length code) 0) [] of
     Inl e \<Rightarrow> (\<exists>k. e = UnmatchedClose k \<and> k < length code \<and> code ! k = CHR '']'' \<and>
                 scan_inv code k [])
   | Inr (jumps', stack') \<Rightarrow>
       scan_inv code (length code) stack' \<and> jumps_inv code (length code) jumps'"
  using scan_inv_init jumps_inv_init by (rule bj_loop_scan)

lemma scan_Inl:
  assumes "bj_loop code 0 (replicate (length code) 0) [] = Inl e"
  shows "\<exists>k. e = UnmatchedClose k \<and> k < length code \<and> code ! k = CHR '']'' \<and>
           scan_inv code k []"
  using scan_from_start [of code] assms by simp

lemma scan_Inr:
  assumes "bj_loop code 0 (replicate (length code) 0) [] = Inr (jumps', stack')"
  shows "scan_inv code (length code) stack' \<and> jumps_inv code (length code) jumps'"
  using scan_from_start [of code] assms by simp

lemma scan_inv_paired:
  assumes "scan_inv code i stack" and "p < i" and "is_bracket (code ! p)" and "p \<notin> set stack"
  shows "paired_below code i p"
  using assms by (auto simp: scan_inv_def)

lemma scan_inv_decomp: "scan_inv code i stack \<Longrightarrow> decomp code i stack"
  by (simp add: scan_inv_def)

lemma paired_close:
  assumes "paired_below code i p" and "code ! p = CHR '']''"
  shows "\<exists>a. matches code a p \<and> p < i"
proof -
  from assms(1) obtain a b where m: "matches code a b" and b: "b < i" and p: "p = a \<or> p = b"
    unfolding paired_below_def by blast
  from m have "code ! a = CHR ''[''" by (simp add: matches_def)
  with assms(2) p have "p = b" by auto
  with m b show ?thesis by blast
qed

lemma paired_open:
  assumes "paired_below code i p" and "code ! p = CHR ''[''"
  shows "\<exists>b. matches code p b \<and> b < i"
proof -
  from assms(1) obtain a b where m: "matches code a b" and b: "b < i" and p: "p = a \<or> p = b"
    unfolding paired_below_def by blast
  from m have "code ! b = CHR '']''" by (simp add: matches_def)
  with assms(2) p have "p = a" by auto
  with m b show ?thesis by blast
qed

lemma scan_Inl_first:
  assumes "bj_loop code 0 (replicate (length code) 0) [] = Inl e"
  shows "\<exists>k. e = UnmatchedClose k \<and> unmatched_close code k \<and>
           (\<forall>j<k. \<not> unmatched_close code j) \<and> balanced (take k code)"
proof -
  from scan_Inl [OF assms] obtain k where e: "e = UnmatchedClose k" and k: "k < length code"
    and c: "code ! k = CHR '']''" and inv: "scan_inv code k []"
    by blast
  have d: "decomp code k []" using inv by (rule scan_inv_decomp)
  have u: "unmatched_close code k"
    using d k c by (rule empty_stack_unmatched)
  have "\<not> unmatched_close code j" if "j < k" for j
  proof
    assume uj: "unmatched_close code j"
    then have cj: "code ! j = CHR '']''" by (simp add: unmatched_close_def)
    then have "is_bracket (code ! j)" by (simp add: is_bracket_def)
    from scan_inv_paired [OF inv that this] have "paired_below code k j" by simp
    from paired_close [OF this cj] obtain a where m: "matches code a j" by blast
    then have "a < j" by (simp add: matches_def)
    with uj m show False by (simp add: unmatched_close_def)
  qed
  with e u d show ?thesis by simp
qed

lemma build_jumps_InrD:
  assumes "build_jumps code = Inr tbl"
  shows "scan_inv code (length code) [] \<and> jumps_inv code (length code) tbl"
proof (cases "bj_loop code 0 (replicate (length code) 0) []")
  case (Inl e)
  with assms show ?thesis by (simp add: build_jumps_def)
next
  case (Inr r)
  obtain jumps stack where r: "r = (jumps, stack)" by (cases r)
  from assms Inr r have "stack = []" "jumps = tbl"
    by (simp_all add: build_jumps_def split: list.splits)
  with scan_Inr [OF Inr [unfolded r]] show ?thesis by simp
qed

lemma table_pairs:
  assumes "jumps_inv code (length code) tbl" and "matches code i j"
  shows "tbl ! i = j \<and> tbl ! j = i \<and> i < j"
  using assms by (simp add: jumps_inv_def matches_def)

lemma table_brackets:
  assumes inv: "scan_inv code (length code) []" and jinv: "jumps_inv code (length code) tbl"
    and i: "i < length code"
  shows "(code ! i = CHR ''['' \<longrightarrow> matches code i (tbl ! i)) \<and>
         (code ! i = CHR '']'' \<longrightarrow> matches code (tbl ! i) i)"
proof (intro conjI impI)
  assume o: "code ! i = CHR ''[''"
  then have "is_bracket (code ! i)" by (simp add: is_bracket_def)
  from scan_inv_paired [OF inv i this] have "paired_below code (length code) i" by simp
  from paired_open [OF this o] obtain b where m: "matches code i b" by blast
  with table_pairs [OF jinv m] show "matches code i (tbl ! i)" by simp
next
  assume c: "code ! i = CHR '']''"
  then have "is_bracket (code ! i)" by (simp add: is_bracket_def)
  from scan_inv_paired [OF inv i this] have "paired_below code (length code) i" by simp
  from paired_close [OF this c] obtain a where m: "matches code a i" by blast
  with table_pairs [OF jinv m] show "matches code (tbl ! i) i" by simp
qed

lemma build_jumps_target:
  assumes "build_jumps code = Inr tbl" and "i < length code"
  shows "(code ! i = CHR ''['' \<longrightarrow> matches code i (tbl ! i)) \<and>
         (code ! i = CHR '']'' \<longrightarrow> matches code (tbl ! i) i)"
  using build_jumps_InrD [OF assms(1)] assms(2) by (simp add: table_brackets)

lemma build_jumps_length:
  assumes "build_jumps code = Inr tbl"
  shows "length tbl = length code"
  using build_jumps_InrD [OF assms] by (simp add: jumps_inv_def)

lemma build_jumps_balanced:
  assumes "balanced code"
  shows "\<exists>tbl. build_jumps code = Inr tbl"
proof (cases "bj_loop code 0 (replicate (length code) 0) []")
  case (Inl e)
  from scan_Inl_first [OF Inl] obtain k where u: "unmatched_close code k"
    and b: "balanced (take k code)"
    by blast
  from u have k: "k < length code" and c: "code ! k = CHR '']''"
    by (simp_all add: unmatched_close_def)
  have "take (Suc k) code = take k code @ [code ! k]"
    using k by (rule take_Suc_conv_app_nth)
  then have "depth (take (Suc k) code) = - 1"
    using c balanced_depth [OF b] by (simp add: depth_append)
  moreover have "0 \<le> depth (take (Suc k) code)"
    using assms by (rule balanced_prefix)
  ultimately show ?thesis by simp
next
  case (Inr r)
  obtain tbl stack where r: "r = (tbl, stack)" by (cases r)
  from scan_Inr [OF Inr [unfolded r]] have inv: "scan_inv code (length code) stack"
    by simp
  have "depth (take (length code) code) = int (length stack)"
    using scan_inv_decomp [OF inv] by (rule decomp_depth) simp
  then have "stack = []"
    using balanced_depth [OF assms] by simp
  then show ?thesis
    using Inr r by (simp add: build_jumps_def)
qed

lemma build_jumps_Inr_balanced:
  assumes "build_jumps code = Inr tbl"
  shows "balanced code"
  using build_jumps_InrD [OF assms] by (simp add: scan_inv_def)

lemma unmatched_close_scan:
  assumes "unmatched_close code k"
  shows "\<exists>k'\<le>k. bj_loop code 0 (replicate (length code) 0) [] = Inl (UnmatchedClose k') \<and>
           unmatched_close code k' \<and> (\<forall>j<k'. \<not> unmatched_close code j)"
proof (cases "bj_loop code 0 (replicate (length code) 0) []")
  case (Inl e)
  from scan_Inl_first [OF Inl] obtain k' where e: "e = UnmatchedClose k'"
    and u: "unmatched_close code k'" and f: "\<forall>j<k'. \<not> unmatched_close code j"
    by blast
  have "k' \<le> k"
    using assms f by (meson not_le)
  with Inl e u f show ?thesis by blast
next
  case (Inr r)
  obtain tbl stack where r: "r = (tbl, stack)" by (cases r)
  from scan_Inr [OF Inr [unfolded r]] have inv: "scan_inv code (length code) stack"
    by simp
  from assms(1) have k: "k < length code" and c: "code ! k = CHR '']''"
    by (simp_all add: unmatched_close_def)
  have "k \<notin> set stack"
    using decomp_open_at [OF scan_inv_decomp [OF inv], of k] c by auto
  moreover have "is_bracket (code ! k)" using c by (simp add: is_bracket_def)
  ultimately have "paired_below code (length code) k"
    using scan_inv_paired [OF inv k] by simp
  from paired_close [OF this c] obtain a where m: "matches code a k" by blast
  then have "a < k" by (simp add: matches_def)
  with assms(1) m show ?thesis by (simp add: unmatched_close_def)
qed

lemma first_unmatched_close_fails:
  assumes "unmatched_close code k" and "\<forall>j<k. \<not> unmatched_close code j"
  shows "bj_loop code 0 (replicate (length code) 0) [] = Inl (UnmatchedClose k)"
proof -
  from unmatched_close_scan [OF assms(1)] obtain k' where "k' \<le> k"
    and r: "bj_loop code 0 (replicate (length code) 0) [] = Inl (UnmatchedClose k')"
    and "unmatched_close code k'"
    by blast
  with assms(2) have "k' = k" by (meson le_neq_implies_less)
  with r show ?thesis by simp
qed

lemma first_unmatched_close_any_rest:
  assumes "unmatched_close code k" and "\<forall>j<k. \<not> unmatched_close code j"
  shows "build_jumps (take (Suc k) code @ rest) = Inl (UnmatchedClose k)"
proof -
  from assms(1) have k: "k < length code" by (simp add: unmatched_close_def)
  have "unmatched_close (take (Suc k) code @ rest) k"
    using assms(1) k by (simp add: unmatched_close_take_append)
  moreover have "\<forall>j<k. \<not> unmatched_close (take (Suc k) code @ rest) j"
    using assms(2) k by (simp add: unmatched_close_take_append)
  ultimately show ?thesis
    using first_unmatched_close_fails [of "take (Suc k) code @ rest" k]
    by (simp add: build_jumps_def)
qed

subsection \<open>The descriptions of a text agree\<close>

text \<open>
  The claims speak of brackets with and without a partner. In terms of the depth of
  prefixes: \<open>build_jumps\<close> fails exactly on the texts that are not balanced; in a balanced
  text every bracket has a partner; the first \<open>]\<close> without one is
  the \<open>]\<close> that follows a balanced prefix; no \<open>]\<close> lacks a partner exactly when no prefix
  closes more than it opened, and then some \<open>[\<close> is never closed exactly when the depth of
  the whole text is positive.
\<close>

lemma build_jumps_fails_iff: "(\<exists>e. build_jumps code = Inl e) \<longleftrightarrow> \<not> balanced code"
proof
  assume "\<exists>e. build_jumps code = Inl e"
  then show "\<not> balanced code"
    using build_jumps_balanced [of code] by auto
next
  assume n: "\<not> balanced code"
  show "\<exists>e. build_jumps code = Inl e"
  proof (cases "build_jumps code")
    case (Inl e)
    then show ?thesis by blast
  next
    case (Inr tbl)
    from build_jumps_Inr_balanced [OF this] n show ?thesis by simp
  qed
qed

lemma balanced_closes_paired:
  assumes "balanced xs" and "j < length xs" and "xs ! j = CHR '']''"
  shows "\<exists>a. matches xs a j"
proof -
  from build_jumps_balanced [OF assms(1)] obtain tbl where "build_jumps xs = Inr tbl"
    by blast
  from build_jumps_target [OF this assms(2)] assms(3) show ?thesis by blast
qed

lemma balanced_opens_paired:
  assumes "balanced xs" and "i < length xs" and "xs ! i = CHR ''[''"
  shows "\<exists>b. matches xs i b"
proof -
  from build_jumps_balanced [OF assms(1)] obtain tbl where "build_jumps xs = Inr tbl"
    by blast
  from build_jumps_target [OF this assms(2)] assms(3) show ?thesis by blast
qed

lemma first_unmatched_close_iff:
  "unmatched_close code k \<and> (\<forall>j<k. \<not> unmatched_close code j) \<longleftrightarrow>
   k < length code \<and> code ! k = CHR '']'' \<and> balanced (take k code)"
proof
  assume a: "unmatched_close code k \<and> (\<forall>j<k. \<not> unmatched_close code j)"
  then have r: "bj_loop code 0 (replicate (length code) 0) [] = Inl (UnmatchedClose k)"
    by (simp add: first_unmatched_close_fails)
  from scan_Inl_first [OF r] have "balanced (take k code)" by simp
  with a show "k < length code \<and> code ! k = CHR '']'' \<and> balanced (take k code)"
    by (simp add: unmatched_close_def)
next
  assume a: "k < length code \<and> code ! k = CHR '']'' \<and> balanced (take k code)"
  then have k: "k < length code" and c: "code ! k = CHR '']''"
    and b: "balanced (take k code)"
    by simp_all
  have u: "unmatched_close code k"
    using b k c by (intro empty_stack_unmatched) simp_all
  have "\<not> unmatched_close code j" if j: "j < k" for j
  proof
    assume uj: "unmatched_close code j"
    then have cj: "code ! j = CHR '']''" by (simp add: unmatched_close_def)
    have "\<exists>a. matches (take k code) a j"
      using b j k cj by (intro balanced_closes_paired) simp_all
    then obtain a where m: "matches (take k code) a j" by blast
    have "matches (take k code @ []) a j = matches code a j"
      using j k by (intro matches_take_append) simp_all
    with m have "matches code a j" by simp
    moreover from this have "a < j" by (simp add: matches_def)
    ultimately show False using uj by (simp add: unmatched_close_def)
  qed
  with u show "unmatched_close code k \<and> (\<forall>j<k. \<not> unmatched_close code j)" by simp
qed

lemma decomp_prefix:
  "decomp code i stack \<Longrightarrow> i \<le> length code \<Longrightarrow> k \<le> i \<Longrightarrow> 0 \<le> depth (take k code)"
proof (induction stack arbitrary: i k)
  case Nil
  then have "balanced (take i code)" by simp
  from balanced_prefix [OF this, of k] Nil.prems(3) show ?case by (simp add: min_def)
next
  case (Cons q rest)
  from Cons.prems have q: "q < i" and o: "code ! q = CHR ''[''"
    and b: "balanced (slice (Suc q) i code)" and d: "decomp code q rest"
    by simp_all
  show ?case
  proof (cases "k \<le> q")
    case True
    with Cons.IH [OF d] q Cons.prems(2) show ?thesis by simp
  next
    case False
    then have qk: "q < k" by simp
    have "slice 0 k code = slice 0 q code @ slice q k code"
      using qk by (intro slice_split) simp_all
    also have "slice q k code = code ! q # slice (Suc q) k code"
      using qk q Cons.prems(2) by (intro slice_open) simp_all
    finally have "depth (take k code) = depth (take q code) + 1 + depth (slice (Suc q) k code)"
      using o by (simp add: slice_0 depth_append)
    moreover have "0 \<le> depth (take q code)"
      using Cons.IH [OF d, of q] q Cons.prems(2) by simp
    moreover have "0 \<le> depth (slice (Suc q) k code)"
      using b qk Cons.prems(3) by (intro balanced_slice_prefix [where b = i]) simp_all
    ultimately show ?thesis by simp
  qed
qed

lemma no_unmatched_close_iff:
  "(\<forall>k. \<not> unmatched_close code k) \<longleftrightarrow> (\<forall>k\<le>length code. 0 \<le> depth (take k code))"
proof
  assume a: "\<forall>k. \<not> unmatched_close code k"
  show "\<forall>k\<le>length code. 0 \<le> depth (take k code)"
  proof (cases "bj_loop code 0 (replicate (length code) 0) []")
    case (Inl e)
    from scan_Inl_first [OF Inl] a show ?thesis by blast
  next
    case (Inr r)
    obtain tbl stack where r: "r = (tbl, stack)" by (cases r)
    from scan_Inr [OF Inr [unfolded r]] have "decomp code (length code) stack"
      by (simp add: scan_inv_def)
    then show ?thesis by (auto intro: decomp_prefix)
  qed
next
  assume a: "\<forall>k\<le>length code. 0 \<le> depth (take k code)"
  show "\<forall>k. \<not> unmatched_close code k"
  proof (intro allI notI)
    fix k
    assume "unmatched_close code k"
    from unmatched_close_scan [OF this] obtain k'
      where r: "bj_loop code 0 (replicate (length code) 0) [] = Inl (UnmatchedClose k')"
      by blast
    from scan_Inl_first [OF r] have u: "unmatched_close code k'"
      and b: "balanced (take k' code)"
      by simp_all
    from u have k: "k' < length code" and c: "code ! k' = CHR '']''"
      by (simp_all add: unmatched_close_def)
    have "take (Suc k') code = take k' code @ [code ! k']"
      using k by (rule take_Suc_conv_app_nth)
    then have "depth (take (Suc k') code) = - 1"
      using c balanced_depth [OF b] by (simp add: depth_append)
    moreover have "0 \<le> depth (take (Suc k') code)"
      using a k by simp
    ultimately show False by simp
  qed
qed

lemma unclosed_on_stack:
  assumes inv: "scan_inv code (length code) stack" and u: "unclosed code i"
  shows "i \<in> set stack"
proof (rule ccontr)
  assume "i \<notin> set stack"
  from u have i: "i < length code" and o: "code ! i = CHR ''[''"
    by (simp_all add: unclosed_def)
  from o have "is_bracket (code ! i)" by (simp add: is_bracket_def)
  from scan_inv_paired [OF inv i this \<open>i \<notin> set stack\<close>]
  have "paired_below code (length code) i" .
  from paired_open [OF this o] obtain b where "matches code i b" "b < length code" by blast
  with u show False by (simp add: unclosed_def)
qed

lemma some_unclosed_iff:
  assumes "\<forall>k. \<not> unmatched_close code k"
  shows "(\<exists>i. unclosed code i) \<longleftrightarrow> 0 < depth code"
proof (cases "bj_loop code 0 (replicate (length code) 0) []")
  case (Inl e)
  from scan_Inl_first [OF Inl] assms show ?thesis by blast
next
  case (Inr r)
  obtain tbl stack where r: "r = (tbl, stack)" by (cases r)
  from scan_Inr [OF Inr [unfolded r]] have inv: "scan_inv code (length code) stack"
    by simp
  have d: "decomp code (length code) stack" using inv by (rule scan_inv_decomp)
  have "depth (take (length code) code) = int (length stack)"
    using d by (rule decomp_depth) simp
  then have dep: "depth code = int (length stack)" by simp
  show ?thesis
  proof
    assume "\<exists>i. unclosed code i"
    then obtain i where "unclosed code i" by blast
    from unclosed_on_stack [OF inv this] have "stack \<noteq> []" by auto
    with dep show "0 < depth code" by simp
  next
    assume "0 < depth code"
    with dep obtain q rest where "stack = q # rest" by (cases stack) auto
    with d have "unclosed code q" by (intro top_unclosed [of code q rest]) simp
    then show "\<exists>i. unclosed code i" by blast
  qed
qed

section \<open>The tape and the dispatch loop\<close>

subsection \<open>Tape initialisation\<close>

lemma zero_fill_eq: "zero_fill n p = p @ replicate n 0"
proof (induction n p rule: zero_fill.induct)
  case (1 remaining p)
  show ?case
  proof (cases "remaining = 0")
    case True
    then show ?thesis by (subst zero_fill.simps) simp
  next
    case False
    let ?chunk = "if remaining < 4096 then remaining else 4096"
    have le: "?chunk \<le> remaining" by simp
    have "zero_fill remaining p = zero_fill (remaining - ?chunk) (p @ replicate ?chunk 0)"
      using False by (subst zero_fill.simps) simp
    also have "\<dots> = (p @ replicate ?chunk 0) @ replicate (remaining - ?chunk) 0"
      using 1 False by simp
    also have "\<dots> = p @ replicate (?chunk + (remaining - ?chunk)) 0"
      by (simp only: replicate_add append_assoc)
    also have "?chunk + (remaining - ?chunk) = remaining"
      using le by arith
    finally show ?thesis .
  qed
qed

lemma tape_init_eq:
  "tape_init n =
     \<lparr>tape = replicate (if n = 0 then 1 else n) 0, pos = 0, len = (if n = 0 then 1 else n)\<rparr>"
  by (simp add: tape_init_def zero_fill_eq)

lemma tape_ok_init: "tape_ok (tape_init n)"
  by (simp add: tape_init_eq tape_ok_def)

lemma tape_ok_in_tape: "tape_ok t0 \<Longrightarrow> in_tape t0"
  by (simp add: tape_ok_def in_tape_def)

subsection \<open>One round of the loop\<close>

lemma step_jump:
  "in_tape (tp w) \<Longrightarrow>
   (code ! i = CHR ''['' \<and> tape (tp w) ! pos (tp w) = 0) \<or>
   (code ! i = CHR '']'' \<and> tape (tp w) ! pos (tp w) \<noteq> 0) \<Longrightarrow>
   step code jumps i w = Inr (jumps ! i + 1, w)"
  by (auto simp: step_def dispatch_def Let_def)

lemma step_no_jump:
  "in_tape (tp w) \<Longrightarrow>
   \<not> ((code ! i = CHR ''['' \<and> tape (tp w) ! pos (tp w) = 0) \<or>
      (code ! i = CHR '']'' \<and> tape (tp w) ! pos (tp w) \<noteq> 0)) \<Longrightarrow>
   \<exists>w'. step code jumps i w = Inr (i + 1, w')"
  by (auto simp: step_def dispatch_def Let_def split: prod.splits)

lemma step_incr:
  "in_tape (tp w) \<Longrightarrow> code ! i = CHR ''+'' \<Longrightarrow>
   step code jumps i w =
     Inr (i + 1, w\<lparr>tp := (tp w)\<lparr>tape := (tape (tp w))[pos (tp w) := tape (tp w) ! pos (tp w) + 1]\<rparr>\<rparr>)"
  by (simp add: step_def dispatch_def Let_def)

lemma step_decr:
  "in_tape (tp w) \<Longrightarrow> code ! i = CHR ''-'' \<Longrightarrow>
   step code jumps i w =
     Inr (i + 1, w\<lparr>tp := (tp w)\<lparr>tape := (tape (tp w))[pos (tp w) := tape (tp w) ! pos (tp w) - 1]\<rparr>\<rparr>)"
  by (simp add: step_def dispatch_def Let_def)

lemma unat_cell_succ: "unat ((v::cell) + 1) = (unat v + 1) mod 256"
  by (simp add: unat_word_ariths)

lemma unat_cell_pred: "unat ((v::cell) - 1) = (unat v + 255) mod 256"
proof -
  have "v - 1 = v + 255" by simp
  then show ?thesis by (simp only: unat_word_ariths) simp
qed

lemma incr_then_decr:
  assumes "in_tape (tp w)" and "code ! i = CHR ''+''" and "code ! (i + 1) = CHR ''-''"
    and "i + 1 < length code"
  shows "exec_rounds 2 code jumps i w = Inr (i + 2, w)"
proof -
  let ?w1 = "w\<lparr>tp := (tp w)\<lparr>tape := (tape (tp w))[pos (tp w) := tape (tp w) ! pos (tp w) + 1]\<rparr>\<rparr>"
  have s1: "step code jumps i w = Inr (i + 1, ?w1)"
    using assms(1,2) by (rule step_incr)
  have in1: "in_tape (tp ?w1)"
    using assms(1) by (simp add: in_tape_def)
  have s2: "step code jumps (i + 1) ?w1 = Inr (i + 2, w)"
    using step_decr [OF in1 assms(3), of jumps] assms(1) by (simp add: in_tape_def)
  have "exec_rounds 2 code jumps i w = exec_rounds (Suc (Suc 0)) code jumps i w"
    by (simp add: numeral_2_eq_2)
  also have "\<dots> = Inr (i + 2, w)"
    using assms(4) s1 s2 by simp
  finally show ?thesis .
qed

subsection \<open>The cursor stays on the tape\<close>

lemma dispatch_tape_ok:
  assumes "tape_ok (tp w)"
  shows "\<exists>i' w'. dispatch code jumps i w = Inr (i', w') \<and> tape_ok (tp w') \<and>
           len (tp w') = len (tp w)"
proof -
  have it: "in_tape (tp w)" using assms by (rule tape_ok_in_tape)
  obtain ch rest where g: "getchar (stdin w) = (ch, rest)"
    by (cases "getchar (stdin w)")
  show ?thesis
    using assms it g unfolding dispatch_def Let_def
    by (auto simp: tape_ok_def)
qed

lemma step_tape_ok:
  assumes "tape_ok (tp w)"
  shows "\<exists>i' w'. step code jumps i w = Inr (i', w') \<and> tape_ok (tp w') \<and>
           len (tp w') = len (tp w)"
  using dispatch_tape_ok [OF assms, of code jumps i]
  by (auto simp: step_def)

lemma exec_rounds_tape_ok:
  "tape_ok (tp w) \<Longrightarrow>
   \<exists>i' w'. exec_rounds n code jumps i w = Inr (i', w') \<and> tape_ok (tp w') \<and>
     len (tp w') = len (tp w)"
proof (induction n arbitrary: i w)
  case 0
  then show ?case by simp
next
  case (Suc n)
  show ?case
  proof (cases "i < length code")
    case True
    obtain i1 w1 where s: "step code jumps i w = Inr (i1, w1)"
      and ok: "tape_ok (tp w1)" and l: "len (tp w1) = len (tp w)"
      using step_tape_ok [OF Suc.prems] by blast
    from Suc.IH [OF ok, of i1] l show ?thesis
      using True s by simp
  next
    case False
    then show ?thesis using Suc.prems by simp
  qed
qed

lemma exec_loop_tape_ok:
  assumes run: "exec_loop code jumps i w = Some r" and ok0: "tape_ok (tp w)"
  shows "\<exists>i' w'. r = Inr (i', w') \<and> tape_ok (tp w') \<and> len (tp w') = len (tp w)"
proof -
  let ?P = "\<lambda>(c::string) (j::nat list) (k::nat) (v::world) (y::fault + (nat \<times> world)).
              tape_ok (tp v) \<longrightarrow>
              (\<exists>i' w'. y = Inr (i', w') \<and> tape_ok (tp w') \<and> len (tp w') = len (tp v))"
  have "?P code jumps i w r"
  proof (rule exec_loop.raw_induct [where P = ?P, OF _ run])
    fix f c j k v y
    assume IH: "\<And>c j k v y. f c j k v = Some y \<Longrightarrow> ?P c j k v y"
      and eq: "(if k < length c
                then case step c j k v of Inl e \<Rightarrow> Some (Inl e)
                     | Inr (i', w') \<Rightarrow> f c j i' w'
                else Some (Inr (k, v))) = Some y"
    show "?P c j k v y"
    proof
      assume ok: "tape_ok (tp v)"
      show "\<exists>i' w'. y = Inr (i', w') \<and> tape_ok (tp w') \<and> len (tp w') = len (tp v)"
      proof (cases "k < length c")
        case True
        obtain i1 w1 where s: "step c j k v = Inr (i1, w1)"
          and ok1: "tape_ok (tp w1)" and l: "len (tp w1) = len (tp v)"
          using step_tape_ok [OF ok] by blast
        have "f c j i1 w1 = Some y"
          using eq True s by simp
        from IH [OF this] ok1 l show ?thesis by simp
      next
        case False
        then show ?thesis using eq ok by auto
      qed
    qed
  qed
  with ok0 show ?thesis by simp
qed

lemma exec_no_fault:
  assumes "tape_ok (tp w)"
  shows "exec code w \<noteq> Some (Faulted f)"
proof
  assume "exec code w = Some (Faulted f)"
  then obtain jumps where "exec_loop code jumps 0 w = Some (Inl f)"
    by (auto simp: exec_def split: sum.splits option.splits)
  from exec_loop_tape_ok [OF this assms] show False by simp
qed

lemma main_no_fault: "main code inp \<noteq> Some (Faulted f)"
  unfolding main_def by (rule exec_no_fault) (simp add: tape_ok_init)

section \<open>The claims about the jump table\<close>

text \<open>
  C1. For a program whose brackets are balanced, \<open>build_jumps\<close> succeeds with a table of
  \<open>code_len\<close> entries in which every \<open>[\<close> at \<open>i\<close> paired with its \<open>]\<close> at \<open>j\<close> has
  \<open>table[i] = j\<close>, \<open>table[j] = i\<close> and \<open>i < j\<close>. The entry of a \<open>[\<close> is the \<open>]\<close> that closes
  it and the entry of a \<open>]\<close> is the \<open>[\<close> it closes, so \<open>table[table[i]] = i\<close> at every bracket
  index \<open>i\<close>, and the entries at the other positions are 0.
\<close>

theorem balanced_program_table:
  assumes "balanced code"
  shows "\<exists>tbl. build_jumps code = Inr tbl \<and> length tbl = length code \<and>
           (\<forall>i j. matches code i j \<longrightarrow> tbl ! i = j \<and> tbl ! j = i \<and> i < j) \<and>
           (\<forall>i<length code. code ! i = CHR ''['' \<longrightarrow> matches code i (tbl ! i)) \<and>
           (\<forall>j<length code. code ! j = CHR '']'' \<longrightarrow> matches code (tbl ! j) j) \<and>
           (\<forall>i<length code. is_bracket (code ! i) \<longrightarrow>
              tbl ! i < length code \<and> tbl ! (tbl ! i) = i) \<and>
           (\<forall>i<length code. \<not> is_bracket (code ! i) \<longrightarrow> tbl ! i = 0)"
proof -
  from build_jumps_balanced [OF assms] obtain tbl where res: "build_jumps code = Inr tbl"
    by blast
  from build_jumps_InrD [OF res] have inv: "scan_inv code (length code) []"
    and jinv: "jumps_inv code (length code) tbl"
    by simp_all
  have len: "length tbl = length code"
    using res by (rule build_jumps_length)
  have pairs: "tbl ! i = j \<and> tbl ! j = i \<and> i < j" if "matches code i j" for i j
    using jinv that by (rule table_pairs)
  have tgt: "(code ! i = CHR ''['' \<longrightarrow> matches code i (tbl ! i)) \<and>
             (code ! i = CHR '']'' \<longrightarrow> matches code (tbl ! i) i)"
    if "i < length code" for i
    using inv jinv that by (rule table_brackets)
  have sym: "tbl ! i < length code \<and> tbl ! (tbl ! i) = i"
    if i: "i < length code" and br: "is_bracket (code ! i)" for i
  proof (cases "code ! i = CHR ''[''")
    case True
    with tgt [OF i] have m: "matches code i (tbl ! i)" by simp
    from pairs [OF m] m show ?thesis by (simp add: matches_def)
  next
    case False
    with br have "code ! i = CHR '']''" by (simp add: is_bracket_def)
    with tgt [OF i] have m: "matches code (tbl ! i) i" by simp
    from pairs [OF m] i show ?thesis by simp
  qed
  have zeros: "tbl ! p = 0" if "p < length code" and "\<not> is_bracket (code ! p)" for p
    using jinv that by (simp add: jumps_inv_def)
  show ?thesis
    using res len pairs tgt sym zeros by blast
qed

theorem balanced_program_table_witness:
  "balanced ''[[]+]'' \<and>
   build_jumps ''[[]+]'' = Inr [4, 2, 1, 0, 0] \<and>
   matches ''[[]+]'' 0 4 \<and> matches ''[[]+]'' 1 2"
proof -
  have b: "balanced ''[[]+]''"
    by (simp add: balanced_def atMost_Suc)
  have "build_jumps ''[[]+]'' = Inr [4, 2, 1, 0, 0]"
    by (simp add: build_jumps_def bj_loop.simps)
  moreover have "matches ''[[]+]'' 0 4" "matches ''[[]+]'' 1 2"
    by (simp_all add: matches_def slice_def balanced_def atMost_Suc)
  ultimately show ?thesis
    using b balanced_program_table [OF b] by simp
qed

text \<open>
  C2. A program with a \<open>]\<close> at index \<open>k\<close> that no \<open>[\<close> before it is left to pair with
  makes \<open>build_jumps\<close> fail with \<open>UnmatchedClose\<close>: the scan ends early, at the first such
  \<open>]\<close>, and reports its index, which is \<open>k\<close> when \<open>k\<close> is the first. Nothing behind that
  index is looked at: the result is the same whatever text follows it.
\<close>

theorem first_unmatched_close_reported:
  assumes "unmatched_close code k"
  shows "((\<forall>j<k. \<not> unmatched_close code j) \<longrightarrow>
            bj_loop code 0 (replicate (length code) 0) [] = Inl (UnmatchedClose k) \<and>
            build_jumps code = Inl (UnmatchedClose k)) \<and>
         (\<exists>k'\<le>k. unmatched_close code k' \<and> (\<forall>j<k'. \<not> unmatched_close code j) \<and>
            bj_loop code 0 (replicate (length code) 0) [] = Inl (UnmatchedClose k') \<and>
            build_jumps code = Inl (UnmatchedClose k') \<and>
            (\<forall>rest. build_jumps (take (Suc k') code @ rest) = Inl (UnmatchedClose k')))"
proof -
  from unmatched_close_scan [OF assms] obtain k' where le: "k' \<le> k"
    and r: "bj_loop code 0 (replicate (length code) 0) [] = Inl (UnmatchedClose k')"
    and u: "unmatched_close code k'" and f: "\<forall>j<k'. \<not> unmatched_close code j"
    by blast
  have b: "build_jumps code = Inl (UnmatchedClose k')"
    using r by (simp add: build_jumps_def)
  have rest: "\<forall>rest. build_jumps (take (Suc k') code @ rest) = Inl (UnmatchedClose k')"
    using first_unmatched_close_any_rest [OF u f] by simp
  have first: "k' = k" if "\<forall>j<k. \<not> unmatched_close code j"
    using that u le by (meson le_neq_implies_less)
  show ?thesis
    using le r u f b rest first by blast
qed

theorem first_unmatched_close_reported_witness:
  "unmatched_close ''[]]+]'' 2 \<and> unmatched_close ''[]]+]'' 4 \<and>
   \<not> unmatched_close ''[]]+]'' 0 \<and> \<not> unmatched_close ''[]]+]'' 1 \<and>
   build_jumps ''[]]+]'' = Inl (UnmatchedClose 2) \<and>
   build_jumps ''[]]'' = Inl (UnmatchedClose 2)"
proof -
  have u: "unmatched_close ''[]]+]'' 2" and u4: "unmatched_close ''[]]+]'' 4"
    by (simp_all add: unmatched_close_def matches_def slice_def balanced_def atMost_Suc
        lessThan_Suc eval_nat_numeral)
  have f0: "\<not> unmatched_close ''[]]+]'' 0" and f1: "\<not> unmatched_close ''[]]+]'' 1"
    by (simp_all add: unmatched_close_def matches_def slice_def balanced_def atMost_Suc
        lessThan_Suc)
  have f: "\<forall>j<2. \<not> unmatched_close ''[]]+]'' j"
    using f0 f1 by (simp add: numeral_2_eq_2 less_Suc_eq)
  have b: "build_jumps ''[]]+]'' = Inl (UnmatchedClose 2)"
    using first_unmatched_close_reported [OF u] f by blast
  have "\<exists>k'\<le>4. build_jumps ''[]]+]'' = Inl (UnmatchedClose k') \<and>
          (\<forall>rest. build_jumps (take (Suc k') ''[]]+]'' @ rest) = Inl (UnmatchedClose k'))"
    using first_unmatched_close_reported [OF u4] by blast
  with b have "\<forall>rest. build_jumps (take (Suc 2) ''[]]+]'' @ rest) = Inl (UnmatchedClose 2)"
    by auto
  then have "build_jumps (take (Suc 2) ''[]]+]'' @ []) = Inl (UnmatchedClose 2)"
    by blast
  then have "build_jumps ''[]]'' = Inl (UnmatchedClose 2)"
    by (simp add: eval_nat_numeral)
  with u u4 f0 f1 b show ?thesis by simp
qed

text \<open>
  C3. When some \<open>[\<close> is never closed and every \<open>]\<close> has its partner, the scan runs to
  the end of the program and leaves a non-empty stack, and \<open>build_jumps\<close> fails with
  \<open>UnmatchedOpen\<close> at the top of that stack, which is the last of the brackets that
  are never closed.
\<close>

theorem innermost_unmatched_open_reported:
  assumes "\<exists>i. unclosed code i" and "\<forall>k. \<not> unmatched_close code k"
  shows "\<exists>jumps stack.
           bj_loop code 0 (replicate (length code) 0) [] = Inr (jumps, stack) \<and>
           stack \<noteq> [] \<and>
           build_jumps code = Inl (UnmatchedOpen (hd stack)) \<and>
           unclosed code (hd stack) \<and>
           (\<forall>i. unclosed code i \<longrightarrow> i \<le> hd stack)"
proof (cases "bj_loop code 0 (replicate (length code) 0) []")
  case (Inl e)
  from scan_Inl_first [OF Inl] assms(2) show ?thesis by blast
next
  case (Inr r)
  obtain tbl stack where r: "r = (tbl, stack)" by (cases r)
  from scan_Inr [OF Inr [unfolded r]] have inv: "scan_inv code (length code) stack"
    by simp
  have d: "decomp code (length code) stack" using inv by (rule scan_inv_decomp)
  from assms(1) unclosed_on_stack [OF inv] obtain q rest where stack: "stack = q # rest"
    by (cases stack) auto
  have top: "unclosed code q"
    using d unfolding stack by (rule top_unclosed)
  have "i \<le> q" if "unclosed code i" for i
  proof (cases "i = q")
    case True
    then show ?thesis by simp
  next
    case False
    with unclosed_on_stack [OF inv that] stack have "i \<in> set rest" by simp
    moreover from d stack have "decomp code q rest" by simp
    ultimately have "i < q" by (intro decomp_lt)
    then show ?thesis by simp
  qed
  with top Inr r stack show ?thesis
    by (simp add: build_jumps_def)
qed

theorem innermost_unmatched_open_reported_witness:
  "unclosed ''[+[[]'' 0 \<and> unclosed ''[+[[]'' 2 \<and> \<not> unclosed ''[+[[]'' 3 \<and>
   \<not> unmatched_close ''[+[[]'' 4 \<and>
   build_jumps ''[+[[]'' = Inl (UnmatchedOpen 2)"
proof -
  have u: "unclosed ''[+[[]'' 0" "unclosed ''[+[[]'' 2" "\<not> unclosed ''[+[[]'' 3"
    by (simp_all add: unclosed_def matches_def slice_def balanced_def atMost_Suc
        lessThan_Suc eval_nat_numeral)
  have n: "\<forall>k \<in> {..<length ''[+[[]''}. \<not> unmatched_close ''[+[[]'' k"
    by (simp add: unmatched_close_def matches_def slice_def balanced_def atMost_Suc
        lessThan_Suc eval_nat_numeral)
  have nc: "\<forall>k. \<not> unmatched_close ''[+[[]'' k"
  proof
    fix k
    show "\<not> unmatched_close ''[+[[]'' k"
    proof (cases "k < length ''[+[[]''")
      case True
      with n show ?thesis by blast
    next
      case False
      then show ?thesis by (simp add: unmatched_close_def)
    qed
  qed
  have n4: "\<not> unmatched_close ''[+[[]'' 4" using nc by blast
  have ex: "\<exists>i. unclosed ''[+[[]'' i" using u(1) by blast
  have b: "build_jumps ''[+[[]'' = Inl (UnmatchedOpen 2)"
    by (simp add: build_jumps_def bj_loop.simps)
  show ?thesis
    using u n4 b innermost_unmatched_open_reported [OF ex nc] by simp
qed

section \<open>The claims about the execution engine\<close>

text \<open>
  C4. In the dispatch loop a taken jump still gets the loop's \<open>++ip\<close>: when the
  instruction at \<open>i\<close> is \<open>[\<close> on a zero cell or \<open>]\<close> on a non-zero cell, the round leaves
  the world as it is and the loop goes on at \<open>jumps[i] + 1\<close>, one past the bracket the
  table names, which is therefore not dispatched on arrival. In every other case the round
  ends at \<open>i + 1\<close>. With the table \<open>build_jumps\<close> returned, \<open>jumps[i]\<close> is the partner of the
  bracket at \<open>i\<close>.
\<close>

theorem jump_resumes_after_target:
  assumes "i < length code" and "in_tape (tp w)"
  shows "(if (code ! i = CHR ''['' \<and> tape (tp w) ! pos (tp w) = 0) \<or>
             (code ! i = CHR '']'' \<and> tape (tp w) ! pos (tp w) \<noteq> 0)
          then step code jumps i w = Inr (jumps ! i + 1, w) \<and>
               exec_loop code jumps i w = exec_loop code jumps (jumps ! i + 1) w
          else (\<exists>w'. step code jumps i w = Inr (i + 1, w') \<and>
                  exec_loop code jumps i w = exec_loop code jumps (i + 1) w')) \<and>
         (build_jumps code = Inr jumps \<longrightarrow>
            (code ! i = CHR ''['' \<longrightarrow> matches code i (jumps ! i)) \<and>
            (code ! i = CHR '']'' \<longrightarrow> matches code (jumps ! i) i))"
proof -
  have tgt: "build_jumps code = Inr jumps \<longrightarrow>
            (code ! i = CHR ''['' \<longrightarrow> matches code i (jumps ! i)) \<and>
            (code ! i = CHR '']'' \<longrightarrow> matches code (jumps ! i) i)"
    using build_jumps_target [of code jumps i] assms(1) by blast
  show ?thesis
  proof (cases "(code ! i = CHR ''['' \<and> tape (tp w) ! pos (tp w) = 0) \<or>
            (code ! i = CHR '']'' \<and> tape (tp w) ! pos (tp w) \<noteq> 0)")
    case True
    have s: "step code jumps i w = Inr (jumps ! i + 1, w)"
      using assms(2) True by (rule step_jump)
    have "exec_loop code jumps i w = exec_loop code jumps (jumps ! i + 1) w"
      using assms(1) by (subst exec_loop.simps) (simp add: s)
    with s True tgt show ?thesis by simp
  next
    case False
    obtain w' where s: "step code jumps i w = Inr (i + 1, w')"
      using step_no_jump [OF assms(2) False] by blast
    have "exec_loop code jumps i w = exec_loop code jumps (i + 1) w'"
      using assms(1) by (subst exec_loop.simps) (simp add: s)
    with s False tgt show ?thesis by auto
  qed
qed

theorem jump_resumes_after_target_witness:
  "(0::nat) < length ''[+]'' \<and>
   in_tape (tp \<lparr>tp = \<lparr>tape = [0], pos = 0, len = 1\<rparr>, stdin = [], stdout = []\<rparr>) \<and>
   build_jumps ''[+]'' = Inr [2, 0, 0] \<and> matches ''[+]'' 0 2 \<and>
   step ''[+]'' [2, 0, 0] 0 \<lparr>tp = \<lparr>tape = [0], pos = 0, len = 1\<rparr>, stdin = [], stdout = []\<rparr> =
     Inr (3, \<lparr>tp = \<lparr>tape = [0], pos = 0, len = 1\<rparr>, stdin = [], stdout = []\<rparr>) \<and>
   step ''[+]'' [2, 0, 0] 2 \<lparr>tp = \<lparr>tape = [5], pos = 0, len = 1\<rparr>, stdin = [], stdout = []\<rparr> =
     Inr (1, \<lparr>tp = \<lparr>tape = [5], pos = 0, len = 1\<rparr>, stdin = [], stdout = []\<rparr>) \<and>
   (\<exists>w'. step ''[+]'' [2, 0, 0] 1 \<lparr>tp = \<lparr>tape = [0], pos = 0, len = 1\<rparr>, stdin = [], stdout = []\<rparr> =
     Inr (2, w'))"
proof -
  have b: "build_jumps ''[+]'' = Inr [2, 0, 0]"
    by (simp add: build_jumps_def bj_loop.simps)
  show ?thesis
    using b
      jump_resumes_after_target [where i = 0 and code = "''[+]''" and jumps = "[2, 0, 0]"
        and w = "\<lparr>tp = \<lparr>tape = [0], pos = 0, len = 1\<rparr>, stdin = [], stdout = []\<rparr>"]
      jump_resumes_after_target [where i = 2 and code = "''[+]''" and jumps = "[2, 0, 0]"
        and w = "\<lparr>tp = \<lparr>tape = [5], pos = 0, len = 1\<rparr>, stdin = [], stdout = []\<rparr>"]
      jump_resumes_after_target [where i = 1 and code = "''[+]''" and jumps = "[2, 0, 0]"
        and w = "\<lparr>tp = \<lparr>tape = [0], pos = 0, len = 1\<rparr>, stdin = [], stdout = []\<rparr>"]
    by (auto simp add: in_tape_def)
qed

text \<open>
  C5. On a tape of length \<open>L \<ge> 1\<close> with the cursor in \<open>[0, L-1]\<close>, \<open>>\<close> puts the cursor
  at 0 when it was at \<open>L-1\<close> and one further otherwise, \<open><\<close> puts it at \<open>L-1\<close> when it was at
  0 and one back otherwise; both rounds end normally.
\<close>

theorem cursor_moves_wrap:
  assumes "1 \<le> len (tp w)" and "pos (tp w) \<le> len (tp w) - 1"
  shows "(code ! i = CHR ''>'' \<longrightarrow>
            step code jumps i w =
              Inr (i + 1, w\<lparr>tp := (tp w)\<lparr>pos := (if pos (tp w) = len (tp w) - 1 then 0
                                               else pos (tp w) + 1)\<rparr>\<rparr>)) \<and>
         (code ! i = CHR ''<'' \<longrightarrow>
            step code jumps i w =
              Inr (i + 1, w\<lparr>tp := (tp w)\<lparr>pos := (if pos (tp w) = 0 then len (tp w) - 1
                                               else pos (tp w) - 1)\<rparr>\<rparr>))"
proof -
  have "len (tp w) \<le> pos (tp w) + 1 \<longleftrightarrow> pos (tp w) = len (tp w) - 1"
    using assms by arith
  then show ?thesis
    by (simp add: step_def dispatch_def Let_def)
qed

theorem cursor_moves_wrap_witness:
  "(1::nat) \<le> len (tp \<lparr>tp = \<lparr>tape = [0, 0, 0], pos = 2, len = 3\<rparr>, stdin = [], stdout = []\<rparr>) \<and>
   step ''>'' [0] 0 \<lparr>tp = \<lparr>tape = [0, 0, 0], pos = 2, len = 3\<rparr>, stdin = [], stdout = []\<rparr> =
     Inr (1, \<lparr>tp = \<lparr>tape = [0, 0, 0], pos = 0, len = 3\<rparr>, stdin = [], stdout = []\<rparr>) \<and>
   step ''<'' [0] 0 \<lparr>tp = \<lparr>tape = [0, 0, 0], pos = 0, len = 3\<rparr>, stdin = [], stdout = []\<rparr> =
     Inr (1, \<lparr>tp = \<lparr>tape = [0, 0, 0], pos = 2, len = 3\<rparr>, stdin = [], stdout = []\<rparr>)"
  using cursor_moves_wrap [where i = 0 and code = "''>''" and jumps = "[0]"
      and w = "\<lparr>tp = \<lparr>tape = [0, 0, 0], pos = 2, len = 3\<rparr>, stdin = [], stdout = []\<rparr>"]
    cursor_moves_wrap [where i = 0 and code = "''<''" and jumps = "[0]"
      and w = "\<lparr>tp = \<lparr>tape = [0, 0, 0], pos = 0, len = 3\<rparr>, stdin = [], stdout = []\<rparr>"]
  by simp

text \<open>
  C6. Cell arithmetic is modulo 256: \<open>+\<close> stores the cell plus 1 and \<open>-\<close> the cell minus
  1 as bytes, so 255 goes to 0 and 0 to 255, and a \<open>+\<close> directly followed by a \<open>-\<close>
  leaves the whole world, the cell included, as it was, whatever the cell held.
\<close>

theorem cell_arith_mod_256:
  assumes "in_tape (tp w)"
  shows "(code ! i = CHR ''+'' \<longrightarrow>
            step code jumps i w =
              Inr (i + 1, w\<lparr>tp := (tp w)\<lparr>tape := (tape (tp w))[pos (tp w) :=
                                                  tape (tp w) ! pos (tp w) + 1]\<rparr>\<rparr>)) \<and>
         (code ! i = CHR ''-'' \<longrightarrow>
            step code jumps i w =
              Inr (i + 1, w\<lparr>tp := (tp w)\<lparr>tape := (tape (tp w))[pos (tp w) :=
                                                  tape (tp w) ! pos (tp w) - 1]\<rparr>\<rparr>)) \<and>
         unat (v + 1) = (unat (v::cell) + 1) mod 256 \<and>
         unat (v - 1) = (unat v + 255) mod 256 \<and>
         (255::cell) + 1 = 0 \<and> (0::cell) - 1 = 255 \<and>
         (code ! i = CHR ''+'' \<and> code ! (i + 1) = CHR ''-'' \<and> i + 1 < length code \<longrightarrow>
            exec_rounds 2 code jumps i w = Inr (i + 2, w))"
  using assms
  by (simp add: step_incr step_decr unat_cell_succ unat_cell_pred incr_then_decr)

theorem cell_arith_mod_256_witness:
  "in_tape (tp \<lparr>tp = \<lparr>tape = [255], pos = 0, len = 1\<rparr>, stdin = [], stdout = []\<rparr>) \<and>
   step ''+-'' [0, 0] 0 \<lparr>tp = \<lparr>tape = [255], pos = 0, len = 1\<rparr>, stdin = [], stdout = []\<rparr> =
     Inr (1, \<lparr>tp = \<lparr>tape = [0], pos = 0, len = 1\<rparr>, stdin = [], stdout = []\<rparr>) \<and>
   step ''+-'' [0, 0] 1 \<lparr>tp = \<lparr>tape = [0], pos = 0, len = 1\<rparr>, stdin = [], stdout = []\<rparr> =
     Inr (2, \<lparr>tp = \<lparr>tape = [255], pos = 0, len = 1\<rparr>, stdin = [], stdout = []\<rparr>) \<and>
   exec_rounds 2 ''+-'' [0, 0] 0 \<lparr>tp = \<lparr>tape = [255], pos = 0, len = 1\<rparr>, stdin = [], stdout = []\<rparr> =
     Inr (2, \<lparr>tp = \<lparr>tape = [255], pos = 0, len = 1\<rparr>, stdin = [], stdout = []\<rparr>) \<and>
   exec_rounds 2 ''+-'' [0, 0] 0 \<lparr>tp = \<lparr>tape = [0], pos = 0, len = 1\<rparr>, stdin = [], stdout = []\<rparr> =
     Inr (2, \<lparr>tp = \<lparr>tape = [0], pos = 0, len = 1\<rparr>, stdin = [], stdout = []\<rparr>)"
  using cell_arith_mod_256 [where i = 0 and code = "''+-''" and jumps = "[0, 0]"
      and w = "\<lparr>tp = \<lparr>tape = [255], pos = 0, len = 1\<rparr>, stdin = [], stdout = []\<rparr>"]
    cell_arith_mod_256 [where i = 1 and code = "''+-''" and jumps = "[0, 0]"
      and w = "\<lparr>tp = \<lparr>tape = [0], pos = 0, len = 1\<rparr>, stdin = [], stdout = []\<rparr>"]
    cell_arith_mod_256 [where i = 0 and code = "''+-''" and jumps = "[0, 0]"
      and w = "\<lparr>tp = \<lparr>tape = [0], pos = 0, len = 1\<rparr>, stdin = [], stdout = []\<rparr>"]
  by (simp add: in_tape_def)

text \<open>
  C7. The input instruction takes one byte off the input stream and stores it in the
  cell under the cursor; at the end of the stream it stores 0 and the stream stays empty.
  Either way the round ends normally at the next instruction.
\<close>

theorem input_reads_byte_or_zero:
  assumes "in_tape (tp w)" and "code ! i = CHR '',''"
  shows "(stdin w = [] \<longrightarrow>
            step code jumps i w =
              Inr (i + 1, w\<lparr>tp := (tp w)\<lparr>tape := (tape (tp w))[pos (tp w) := 0]\<rparr>,
                             stdin := []\<rparr>)) \<and>
         (\<forall>b bs. stdin w = b # bs \<longrightarrow>
            step code jumps i w =
              Inr (i + 1, w\<lparr>tp := (tp w)\<lparr>tape := (tape (tp w))[pos (tp w) := b]\<rparr>,
                             stdin := bs\<rparr>))"
proof -
  have neq: "uint b \<noteq> EOF" for b :: cell
  proof -
    have "0 \<le> uint b" by (rule uint_ge_0)
    then show ?thesis unfolding EOF_def by linarith
  qed
  show ?thesis
    using assms by (auto simp: step_def dispatch_def Let_def getchar_def neq)
qed

theorem input_reads_byte_or_zero_witness:
  "in_tape (tp \<lparr>tp = \<lparr>tape = [7], pos = 0, len = 1\<rparr>, stdin = [], stdout = []\<rparr>) \<and>
   step '','' [0] 0 \<lparr>tp = \<lparr>tape = [7], pos = 0, len = 1\<rparr>, stdin = [], stdout = []\<rparr> =
     Inr (1, \<lparr>tp = \<lparr>tape = [0], pos = 0, len = 1\<rparr>, stdin = [], stdout = []\<rparr>) \<and>
   step '','' [0] 0 \<lparr>tp = \<lparr>tape = [7], pos = 0, len = 1\<rparr>, stdin = [65, 66], stdout = []\<rparr> =
     Inr (1, \<lparr>tp = \<lparr>tape = [65], pos = 0, len = 1\<rparr>, stdin = [66], stdout = []\<rparr>)"
  using input_reads_byte_or_zero [where i = 0 and code = "'',''" and jumps = "[0]"
      and w = "\<lparr>tp = \<lparr>tape = [7], pos = 0, len = 1\<rparr>, stdin = [], stdout = []\<rparr>"]
    input_reads_byte_or_zero [where i = 0 and code = "'',''" and jumps = "[0]"
      and w = "\<lparr>tp = \<lparr>tape = [7], pos = 0, len = 1\<rparr>, stdin = [65, 66], stdout = []\<rparr>"]
  by (simp add: in_tape_def)

text \<open>
  C8. When \<open>build_jumps\<close> fails, \<open>exec\<close> returns before its loop: the world it was handed
  (tape, cursor, input still to be read, output written) is the world it leaves, and
  \<open>main\<close> ends with the freshly initialised tape, the whole input unread and no output.
\<close>

theorem failed_match_runs_nothing:
  assumes "build_jumps code = Inl e"
  shows "exec code w = Some (Aborted e w) \<and>
         main code inp =
           Some (Aborted e \<lparr>tp = tape_init (if length code \<noteq> 0 then length code else 1),
                            stdin = inp, stdout = []\<rparr>)"
  using assms by (simp add: exec_def main_def)

theorem failed_match_runs_nothing_witness:
  "build_jumps ''+]'' = Inl (UnmatchedClose 1) \<and>
   exec ''+]'' \<lparr>tp = \<lparr>tape = [3], pos = 0, len = 1\<rparr>, stdin = [65], stdout = [66]\<rparr> =
     Some (Aborted (UnmatchedClose 1)
             \<lparr>tp = \<lparr>tape = [3], pos = 0, len = 1\<rparr>, stdin = [65], stdout = [66]\<rparr>) \<and>
   main ''+]'' [65] =
     Some (Aborted (UnmatchedClose 1)
             \<lparr>tp = \<lparr>tape = [0, 0], pos = 0, len = 2\<rparr>, stdin = [65], stdout = []\<rparr>)"
proof -
  have b: "build_jumps ''+]'' = Inl (UnmatchedClose 1)"
    by (simp add: build_jumps_def bj_loop.simps)
  show ?thesis
    using b failed_match_runs_nothing [OF b,
        of "\<lparr>tp = \<lparr>tape = [3], pos = 0, len = 1\<rparr>, stdin = [65], stdout = [66]\<rparr>" "[65]"]
    by (simp add: tape_init_eq numeral_2_eq_2)
qed

text \<open>
  C9. For the empty program \<open>tape_init\<close> turns a requested length 0 into a tape of one
  zero cell, \<open>build_jumps\<close> returns the empty table, the loop ends at instruction pointer
  0 without a round, and \<open>main\<close> completes with that tape, the input unread and no output.
\<close>

theorem empty_program:
  "tape_init 0 = \<lparr>tape = [0], pos = 0, len = 1\<rparr> \<and>
   build_jumps [] = Inr [] \<and>
   exec_loop [] [] 0 w = Some (Inr (0, w)) \<and>
   main [] inp =
     Some (Completed \<lparr>tp = \<lparr>tape = [0], pos = 0, len = 1\<rparr>, stdin = inp, stdout = []\<rparr>)"
  by (simp add: tape_init_eq build_jumps_def bj_loop.simps exec_loop.simps main_def exec_def)

text \<open>
  C10. \<open>tape_init\<close> returns a tape of at least one cell, all cells 0, with the cursor at
  0. A round started with the cursor on the tape (\<open>tape_ok\<close>: the block has \<open>len\<close> cells and
  \<open>pos < len\<close>) ends without a fault, with the cursor on the tape and the length
  unchanged; so does every finite stretch of rounds and every run of the loop that ends,
  and neither \<open>exec\<close> on such a tape nor \<open>main\<close> ends in a fault.
\<close>

theorem cursor_stays_in_bounds:
  "pos (tape_init n) = 0 \<and>
   tape (tape_init n) = replicate (len (tape_init n)) 0 \<and>
   1 \<le> len (tape_init n) \<and>
   tape_ok (tape_init n) \<and>
   (tape_ok (tp w) \<longrightarrow>
      (\<exists>i' w'. step code jumps i w = Inr (i', w') \<and> tape_ok (tp w') \<and>
         len (tp w') = len (tp w))) \<and>
   (tape_ok (tp w) \<longrightarrow>
      (\<exists>i' w'. exec_rounds k code jumps i w = Inr (i', w') \<and> tape_ok (tp w') \<and>
         len (tp w') = len (tp w))) \<and>
   (tape_ok (tp w) \<and> exec_loop code jumps i w = Some r \<longrightarrow>
      (\<exists>i' w'. r = Inr (i', w') \<and> tape_ok (tp w') \<and> len (tp w') = len (tp w))) \<and>
   (tape_ok (tp w) \<longrightarrow> exec code w \<noteq> Some (Faulted f)) \<and>
   main code inp \<noteq> Some (Faulted f)"
proof -
  have "pos (tape_init n) = 0" "tape (tape_init n) = replicate (len (tape_init n)) 0"
    "1 \<le> len (tape_init n)"
    by (simp_all add: tape_init_eq)
  then show ?thesis
    using tape_ok_init [of n] step_tape_ok [of w code jumps i]
      exec_rounds_tape_ok [of w k code jumps i] exec_loop_tape_ok [of code jumps i w r]
      exec_no_fault [of w code f] main_no_fault [of code inp f]
    by blast
qed

theorem cursor_stays_in_bounds_witness:
  "tape_ok (tp \<lparr>tp = \<lparr>tape = [0, 0], pos = 0, len = 2\<rparr>, stdin = [], stdout = []\<rparr>) \<and>
   (\<exists>i' w'. step ''<>'' [0, 0] 0 \<lparr>tp = \<lparr>tape = [0, 0], pos = 0, len = 2\<rparr>, stdin = [], stdout = []\<rparr>
       = Inr (i', w') \<and> tape_ok (tp w') \<and> len (tp w') = 2) \<and>
   exec_rounds 2 ''<>'' [0, 0] 0 \<lparr>tp = \<lparr>tape = [0, 0], pos = 0, len = 2\<rparr>, stdin = [], stdout = []\<rparr> =
     Inr (2, \<lparr>tp = \<lparr>tape = [0, 0], pos = 0, len = 2\<rparr>, stdin = [], stdout = []\<rparr>) \<and>
   exec_loop ''<>'' [0, 0] 0 \<lparr>tp = \<lparr>tape = [0, 0], pos = 0, len = 2\<rparr>, stdin = [], stdout = []\<rparr> =
     Some (Inr (2, \<lparr>tp = \<lparr>tape = [0, 0], pos = 0, len = 2\<rparr>, stdin = [], stdout = []\<rparr>)) \<and>
   exec ''<>'' \<lparr>tp = \<lparr>tape = [0, 0], pos = 0, len = 2\<rparr>, stdin = [], stdout = []\<rparr> =
     Some (Completed \<lparr>tp = \<lparr>tape = [0, 0], pos = 0, len = 2\<rparr>, stdin = [], stdout = []\<rparr>)"
proof -
  let ?w = "\<lparr>tp = \<lparr>tape = [0, 0], pos = 0, len = 2\<rparr>, stdin = [], stdout = []\<rparr>"
  have l: "exec_loop ''<>'' [0, 0] 0 ?w = Some (Inr (2, ?w))"
    by (simp add: exec_loop.simps step_def dispatch_def)
  have r: "exec_rounds 2 ''<>'' [0, 0] 0 ?w = Inr (2, ?w)"
    by (simp add: numeral_2_eq_2 step_def dispatch_def)
  have b: "build_jumps ''<>'' = Inr [0, 0]"
    by (simp add: build_jumps_def bj_loop.simps)
  have e: "exec ''<>'' ?w = Some (Completed ?w)"
    by (simp add: exec_def b l)
  show ?thesis
    using l r e
      cursor_stays_in_bounds [where code = "''<>''" and jumps = "[0, 0]" and i = 0 and w = ?w]
    by (simp add: tape_ok_def)
qed

end
